theory Spec2Isabelle
  imports Main "HOL-Library.Word" "HOL-Library.Char_ord" "HOL-Library.List_Lexorder"
begin

section \<open>Python string operations used by the synchronisation code\<close>

text \<open>
  A Python \<open>str\<close> is modelled as a \<^typ>\<open>string\<close>: one \<^typ>\<open>char\<close> per code point,
  restricted to the code points below 256.  Bytes are 8-bit words.
\<close>

type_synonym byte = "8 word"
type_synonym bytes = "byte list"

text \<open>\<open>s.startswith('.')\<close>\<close>

definition startswith_dot :: "string \<Rightarrow> bool" where
  "startswith_dot s = (case s of [] \<Rightarrow> False | c # _ \<Rightarrow> c = CHR ''.'')"

text \<open>
  \<open>str.splitlines()\<close>: the line boundaries below 256 are LF, CR, CR LF, VT, FF, FS, GS,
  RS and NEL; the boundary is dropped, and a trailing boundary opens no further line.
\<close>

definition is_linebreak :: "char \<Rightarrow> bool" where
  "is_linebreak c \<longleftrightarrow>
     c \<in> set [CHR 0x0A, CHR 0x0D, CHR 0x0B, CHR 0x0C, CHR 0x1C, CHR 0x1D, CHR 0x1E, CHR 0x85]"

fun splitlines_from :: "string \<Rightarrow> string \<Rightarrow> string list" where
  "splitlines_from cur [] = (if cur = [] then [] else [rev cur])"
| "splitlines_from cur [c] =
     (if is_linebreak c then [rev cur] else [rev (c # cur)])"
| "splitlines_from cur (c # d # cs) =
     (if c = CHR 0x0D \<and> d = CHR 0x0A then rev cur # splitlines_from [] cs
      else if is_linebreak c then rev cur # splitlines_from [] (d # cs)
      else splitlines_from (c # cur) (d # cs))"

definition splitlines :: "string \<Rightarrow> string list" where
  "splitlines s = splitlines_from [] s"

text \<open>\<open>s.lstrip('/')\<close>\<close>

definition lstrip_slash :: "string \<Rightarrow> string" where
  "lstrip_slash s = dropWhile (\<lambda>c. c = CHR ''/'') s"

text \<open>
  \<open>s.split(sep)\<close> with an explicit separator: the pieces between the non-overlapping
  occurrences of \<open>sep\<close>, found from the left.  An empty separator raises ValueError, which
  is \<open>None\<close> here.
\<close>

function split_from :: "string \<Rightarrow> string \<Rightarrow> string \<Rightarrow> string list" where
  "split_from sep cur [] = [rev cur]"
| "split_from sep cur (c # cs) =
     (if sep \<noteq> [] \<and> take (length sep) (c # cs) = sep
      then rev cur # split_from sep [] (drop (length sep) (c # cs))
      else split_from sep (c # cur) cs)"
  by pat_completeness auto
termination
  by (relation "measure (\<lambda>(sep, cur, s). length s)") auto

definition py_split :: "string \<Rightarrow> string \<Rightarrow> string list option" where
  "py_split s sep = (if sep = [] then None else Some (split_from sep [] s))"

text \<open>\<open>os.path.join(a, b)\<close> of \<open>posixpath\<close>, for two arguments.\<close>

definition path_join :: "string \<Rightarrow> string \<Rightarrow> string" where
  "path_join a b =
     (if (case b of [] \<Rightarrow> False | c # _ \<Rightarrow> c = CHR ''/'') then b
      else if a = [] \<or> last a = CHR ''/'' then a @ b
      else a @ ''/'' @ b)"

section \<open>Shell-style matching: \<open>fnmatch.fnmatchcase\<close>\<close>

text \<open>
  \<open>fnmatchcase(name, pat)\<close> belongs to Python's standard library.  It translates the
  pattern into a regular expression (\<open>fnmatch.translate\<close>, as of Python 3.11) and matches
  the whole name against it, comparing characters as they are (no case folding).  The
  translation is modelled by a list of pattern items: \<open>*\<close> (a run of stars is one star),
  \<open>?\<close>, a bracket expression \<open>[seq]\<close> or \<open>[!seq]\<close> of characters and ranges, and every
  other character standing for itself.  A \<open>[\<close> with no closing bracket stands for itself.
\<close>

datatype glob_item = Star | AnyChar | Lit char | CharSet bool "(char \<times> char) list"

text \<open>The text after a \<open>[\<close> up to the next \<open>]\<close>, and what follows that bracket.\<close>

fun scan_close :: "string \<Rightarrow> string \<Rightarrow> (string \<times> string) option" where
  "scan_close acc [] = None"
| "scan_close acc (c # cs) =
     (if c = CHR '']'' then Some (rev acc, cs) else scan_close (c # acc) cs)"

text \<open>
  The scan for the closing bracket steps over a leading \<open>!\<close> and over a \<open>]\<close> that comes
  first in the expression, as \<open>translate\<close> does with its index \<open>j\<close>.
\<close>

definition bracket :: "string \<Rightarrow> (string \<times> string) option" where
  "bracket p =
     (let (p1, s1) = (case p of c # cs \<Rightarrow> if c = CHR ''!'' then ([c], cs) else ([], p) | [] \<Rightarrow> ([], p));
          (p2, s2) = (case s1 of c # cs \<Rightarrow> if c = CHR '']'' then ([c], cs) else ([], s1) | [] \<Rightarrow> ([], s1))
      in case scan_close [] s2 of
           None \<Rightarrow> None
         | Some (body, rest) \<Rightarrow> Some (p1 @ p2 @ body, rest))"

text \<open>
  The text \<open>stuff\<close> of a bracket expression is cut into chunks at the hyphens that may
  stand for a range.  \<open>translate\<close> looks for the first such hyphen from the second character
  of the text on (from the third one after a leading \<open>!\<close>), and after a hyphen it skips two
  characters before it looks for the next one: \<open>k = pat.find('-', k, j)\<close>, then \<open>k = k+3\<close>.
  A hyphen that ends the text belongs to the last chunk.
\<close>

fun chunk_scan :: "nat \<Rightarrow> string \<Rightarrow> string \<Rightarrow> string list" where
  "chunk_scan skip acc [] = [rev acc]"
| "chunk_scan skip acc (c # cs) =
     (if skip = 0 \<and> c = CHR ''-'' then
        (if cs = [] then [rev acc @ ''-''] else rev acc # chunk_scan 2 [] cs)
      else chunk_scan (skip - 1) (c # acc) cs)"

definition chunks :: "string \<Rightarrow> string list" where
  "chunks stuff =
     chunk_scan (case stuff of c # _ \<Rightarrow> if c = CHR ''!'' then 2 else 1 | [] \<Rightarrow> 1) [] stuff"

text \<open>
  The removal of the empty ranges, from the last chunk down to the second one: where the
  last character of a chunk is greater than the first character of the (already treated)
  chunk after it, the two characters are dropped and the two chunks become one.  The loop
  reads \<open>chunks[k-1][-1]\<close> and \<open>chunks[k][0]\<close>; neither chunk is empty there, and the
  clause for an empty one is never taken.
\<close>

fun drop_empty_ranges :: "string list \<Rightarrow> string list" where
  "drop_empty_ranges [] = []"
| "drop_empty_ranges [c] = [c]"
| "drop_empty_ranges (c # cs) =
     (case (rev c, drop_empty_ranges cs) of
        (l # rc, (h # d) # ds) \<Rightarrow> if l > h then (rev rc @ d) # ds else c # (h # d) # ds
      | (_, ds) \<Rightarrow> c # ds)"

text \<open>
  The chunks are joined by hyphens into the text of a character class of the regular
  expression; the characters inside the chunks are escaped where the class would read
  them otherwise (backslash, hyphen, \<open>&\<close>, \<open>~\<close>, \<open>|\<close>, and a leading \<open>^\<close> or \<open>[\<close>), so each
  of them is a member, and only the joining hyphens are range signs.
\<close>

datatype class_item = Member char | Hyphen

fun class_items :: "string list \<Rightarrow> class_item list" where
  "class_items [] = []"
| "class_items [c] = map Member c"
| "class_items (c # cs) = map Member c @ Hyphen # class_items cs"

text \<open>
  The class as the regular-expression parser reads it, from the left: an item, a range
  sign and an item are a range; every other item stands for itself (a range sign in the
  place of an item is a hyphen).
\<close>

fun item_char :: "class_item \<Rightarrow> char" where
  "item_char (Member c) = c"
| "item_char Hyphen = CHR ''-''"

fun class_ranges :: "class_item list \<Rightarrow> (char \<times> char) list" where
  "class_ranges (x # Hyphen # y # r) = (item_char x, item_char y) # class_ranges r"
| "class_ranges (x # r) = (item_char x, item_char x) # class_ranges r"
| "class_ranges [] = []"

text \<open>
  The bracket expression as a pattern item.  The test for the negation sign comes after
  the removal of the empty ranges, on the text of the class: an empty text matches
  nothing, the text \<open>!\<close> alone matches every character, a text that begins with \<open>!\<close> is
  the complement of the rest.
\<close>

definition char_set :: "string \<Rightarrow> glob_item" where
  "char_set stuff =
     (let items = class_items (drop_empty_ranges (chunks stuff))
      in case items of
           Member c # rest \<Rightarrow>
             if c = CHR ''!'' then CharSet True (class_ranges rest)
             else CharSet False (class_ranges items)
         | _ \<Rightarrow> CharSet False (class_ranges items))"

lemma scan_close_length: "scan_close acc p = Some (body, rest) \<Longrightarrow> length rest < length p"
proof (induction p arbitrary: acc)
  case Nil
  then show ?case by simp
next
  case (Cons c p)
  show ?case
  proof (cases "c = CHR '']''")
    case True
    with Cons.prems show ?thesis by simp
  next
    case False
    with Cons.prems have "scan_close (c # acc) p = Some (body, rest)" by simp
    then have "length rest < length p" by (rule Cons.IH)
    then show ?thesis by simp
  qed
qed

lemma bracket_length: "bracket p = Some (stuff, rest) \<Longrightarrow> length rest < Suc (length p)"
  by (auto simp: bracket_def Let_def split: list.splits if_splits option.splits
           dest!: scan_close_length)

function translate :: "string \<Rightarrow> glob_item list" where
  "translate [] = []"
| "translate (c # p) =
     (if c = CHR ''*'' then
        (case translate p of Star # r \<Rightarrow> Star # r | r \<Rightarrow> Star # r)
      else if c = CHR ''?'' then AnyChar # translate p
      else if c = CHR ''['' then
        (case bracket p of
           None \<Rightarrow> Lit c # translate p
         | Some (stuff, rest) \<Rightarrow> char_set stuff # translate rest)
      else Lit c # translate p)"
  by pat_completeness auto
termination
  by (relation "measure length") (auto dest: bracket_length)

fun item_matches :: "glob_item \<Rightarrow> char \<Rightarrow> bool" where
  "item_matches Star c = True"
| "item_matches AnyChar c = True"
| "item_matches (Lit d) c = (c = d)"
| "item_matches (CharSet negated rs) c = ((\<exists>(lo, hi) \<in> set rs. lo \<le> c \<and> c \<le> hi) \<noteq> negated)"

fun glob_match :: "glob_item list \<Rightarrow> string \<Rightarrow> bool" where
  "glob_match [] s = (s = [])"
| "glob_match (Star # ts) [] = glob_match ts []"
| "glob_match (Star # ts) (c # s) = (glob_match ts (c # s) \<or> glob_match (Star # ts) s)"
| "glob_match (t # ts) [] = False"
| "glob_match (t # ts) (c # s) = (item_matches t c \<and> glob_match ts s)"

definition fnmatchcase :: "string \<Rightarrow> string \<Rightarrow> bool" where
  "fnmatchcase name pat = glob_match (translate pat) name"

section \<open>The data model\<close>

text \<open>
  Modelled from the spec: \<open>DataSourceStatusChoices\<close> (\<open>core/choices.py\<close> is not among the
  source files); the spec lists the status values new, queued, syncing, completed, failed.
\<close>

datatype status = New | Queued | Syncing | Completed | Failed

type_synonym timestamp = nat

text \<open>
  \<open>class DataSource\<close>.  The record stands both for the instance in memory and for its
  row in the database; \<open>parameters\<close> is the JSON mapping (or null).
\<close>

record DataSource =
  pk :: nat
  name :: string
  type' :: string
  source_url :: string
  status :: status
  enabled :: bool
  ignore_rules :: string
  parameters :: "(string \<times> string) list option"
  last_synced :: "timestamp option"

text \<open>
  \<open>class DataFile\<close>.  A row of the table has a primary key; an instance that was
  constructed and not yet saved has none, no timestamps and no size; its hash is the
  empty string and its data the empty byte string (the defaults of a \<open>CharField\<close> and of
  a \<open>BinaryField\<close>).
\<close>

record DataFile =
  df_pk :: "nat option"
  created :: "timestamp option"
  last_updated :: "timestamp option"
  source :: nat
  path :: string
  size' :: "nat option"
  hash :: string
  data :: "bytes option"

definition new_DataFile :: "nat \<Rightarrow> string \<Rightarrow> DataFile" where
  "new_DataFile src p =
     \<lparr>df_pk = None, created = None, last_updated = None, source = src, path = p,
      size' = None, hash = [], data = Some []\<rparr>"

section \<open>The ignore rules: \<open>DataSource._ignore\<close>\<close>

definition ignore :: "DataSource \<Rightarrow> string \<Rightarrow> bool" where
  "ignore self filename =
     (if startswith_dot filename then True
      else list_ex (\<lambda>rule. fnmatchcase filename rule) (splitlines (ignore_rules self)))"

section \<open>The file system\<close>

text \<open>
  The file system is a tree of named entries, seen from the directory \<open>/\<close>, which is also
  the working directory; there are no symbolic links.  Opening a path fails with one of
  the \<open>OSError\<close> subclasses below.
\<close>

datatype node = File string bytes | Dir string "node list"

datatype oserror = FileNotFoundError | IsADirectoryError | NotADirectoryError

fun node_name :: "node \<Rightarrow> string" where
  "node_name (File n b) = n"
| "node_name (Dir n es) = n"

fun is_dir :: "node \<Rightarrow> bool" where
  "is_dir (File n b) = False"
| "is_dir (Dir n es) = True"

text \<open>
  Path resolution, component by component, on the stack of directories entered so far:
  empty components and \<open>.\<close> stay, \<open>..\<close> goes up (and stays at \<open>/\<close>).
\<close>

fun resolve_from :: "node list \<Rightarrow> string list \<Rightarrow> oserror + node" where
  "resolve_from [] cs = Inl FileNotFoundError"
| "resolve_from (cur # up) [] = Inr cur"
| "resolve_from (cur # up) (c # cs) =
     (case cur of
        File n b \<Rightarrow> Inl NotADirectoryError
      | Dir n es \<Rightarrow>
          if c = [] \<or> c = ''.'' then resolve_from (cur # up) cs
          else if c = ''..'' then resolve_from (if up = [] then [cur] else up) cs
          else (case find (\<lambda>e. node_name e = c) es of
                  None \<Rightarrow> Inl FileNotFoundError
                | Some e \<Rightarrow> resolve_from (e # cur # up) cs))"

definition resolve :: "node \<Rightarrow> string \<Rightarrow> oserror + node" where
  "resolve fs p =
     (if p = [] then Inl FileNotFoundError else resolve_from [fs] (split_from ''/'' [] p))"

text \<open>\<open>open(p, 'rb').read()\<close>\<close>

definition read_file :: "node \<Rightarrow> string \<Rightarrow> oserror + bytes" where
  "read_file fs p =
     (case resolve fs p of
        Inl e \<Rightarrow> Inl e
      | Inr (File n b) \<Rightarrow> Inr b
      | Inr (Dir n es) \<Rightarrow> Inl IsADirectoryError)"

text \<open>
  \<open>os.walk(top)\<close>, top down: one triple (directory path, names of the subdirectories,
  names of the other entries) for the directory, then the triples of each subdirectory
  under the joined path.  A path that is no directory yields nothing.
\<close>

fun walk_node :: "string \<Rightarrow> node \<Rightarrow> (string \<times> string list \<times> string list) list" where
  "walk_node dirpath (File n b) = []"
| "walk_node dirpath (Dir n es) =
     (dirpath, map node_name (filter is_dir es), map node_name (filter (\<lambda>e. \<not> is_dir e) es))
       # concat (map (\<lambda>e. walk_node (path_join dirpath (node_name e)) e) (filter is_dir es))"

definition os_walk :: "node \<Rightarrow> string \<Rightarrow> (string \<times> string list \<times> string list) list" where
  "os_walk fs dirpath =
     (case resolve fs dirpath of Inl e \<Rightarrow> [] | Inr d \<Rightarrow> walk_node dirpath d)"

section \<open>The tree walk: \<open>DataSource._walk\<close>\<close>

text \<open>
  Modelled from the spec: the failures of a backend (\<open>core/data_backends.py\<close> is not among
  the source files) are backend-specific fetch errors: network failure, authentication
  failure, not found.
\<close>

datatype fetch_error = NetworkFailure | AuthFailure | NotFound

datatype error =
    SyncError
  | TypeError
  | ValueError
  | IndexError
  | ValidationError
  | AttributeError
  | YAMLError
  | OSError oserror
  | FetchError fetch_error

text \<open>\<open>path.split(root)[1].lstrip('/')\<close>\<close>

definition strip_root :: "string \<Rightarrow> string \<Rightarrow> error + string" where
  "strip_root p root =
     (case py_split p root of
        None \<Rightarrow> Inl ValueError
      | Some (a # b # rest) \<Rightarrow> Inr (lstrip_slash b)
      | Some _ \<Rightarrow> Inl IndexError)"

text \<open>
  The Python set \<open>paths\<close> is a list without repetitions, in the order of insertion;
  the order in which Python iterates a set is not specified.
\<close>

fun walk_loop ::
  "DataSource \<Rightarrow> string \<Rightarrow> (string \<times> string list \<times> string list) list \<Rightarrow> string list
    \<Rightarrow> error + string list" where
  "walk_loop self root [] paths = Inr paths"
| "walk_loop self root ((p, dir_names, file_names) # rest) paths =
     (case strip_root p root of
        Inl e \<Rightarrow> Inl e
      | Inr rel \<Rightarrow>
          if startswith_dot rel then walk_loop self root rest paths
          else walk_loop self root rest
                 (fold (\<lambda>file_name ps.
                          if \<not> ignore self file_name then List.insert (path_join rel file_name) ps
                          else ps)
                    file_names paths))"

definition walk :: "DataSource \<Rightarrow> node \<Rightarrow> string \<Rightarrow> error + string list" where
  "walk self fs root = walk_loop self root (os_walk fs root) []"

section \<open>Hashing and \<open>DataFile.refresh_from_disk\<close>\<close>

text \<open>
  \<open>hashlib.sha256\<close> is a parameter of the model, a function from bytes to a 256-bit
  digest; nothing else is assumed of it.  \<open>hexdigest()\<close> writes the digest as 64 lowercase
  hexadecimal digits, the most significant first.
\<close>

definition hex_char :: "nat \<Rightarrow> char" where
  "hex_char n = ''0123456789abcdef'' ! n"

definition hexdigest :: "256 word \<Rightarrow> string" where
  "hexdigest w = map (\<lambda>i. hex_char (unat (take_bit 4 (drop_bit (4 * (63 - i)) w)))) [0..<64]"

text \<open>
  Modelled from the spec: \<open>utilities.files.sha256_hash\<close> (\<open>utilities/files.py\<close> is not among
  the source files); the spec has it compute the SHA-256 of the file at the path, so it
  opens the file, which fails as \<open>open\<close> does, and hashes its bytes.
\<close>

definition sha256_hash :: "(bytes \<Rightarrow> 256 word) \<Rightarrow> node \<Rightarrow> string \<Rightarrow> oserror + 256 word" where
  "sha256_hash sha256 fs file_path =
     (case read_file fs file_path of Inl e \<Rightarrow> Inl e | Inr b \<Rightarrow> Inr (sha256 b))"

text \<open>
  \<open>os.path.getsize\<close>: the size of a regular file is the number of its bytes.
  \<open>refresh_from_disk\<close> asks for it only after the file has been opened and hashed.
\<close>

definition getsize :: "node \<Rightarrow> string \<Rightarrow> oserror + nat" where
  "getsize fs file_path =
     (case read_file fs file_path of Inl e \<Rightarrow> Inl e | Inr b \<Rightarrow> Inr (length b))"

text \<open>
  \<open>now\<close> is what \<open>timezone.now()\<close> returns when it is called.  The result is the
  instance after the call and \<open>is_modified\<close>, or the \<open>OSError\<close> raised.
\<close>

definition refresh_from_disk ::
  "(bytes \<Rightarrow> 256 word) \<Rightarrow> node \<Rightarrow> timestamp \<Rightarrow> DataFile \<Rightarrow> string \<Rightarrow> oserror + DataFile \<times> bool" where
  "refresh_from_disk sha256 fs now self source_root =
     (let file_path = path_join source_root (path self) in
      case sha256_hash sha256 fs file_path of
        Inl e \<Rightarrow> Inl e
      | Inr h \<Rightarrow>
          let file_hash = hexdigest h;
              is_modified = (file_hash \<noteq> hash self)
          in if is_modified then
               (case getsize fs file_path of
                  Inl e \<Rightarrow> Inl e
                | Inr n \<Rightarrow>
                    (case read_file fs file_path of
                       Inl e \<Rightarrow> Inl e
                     | Inr b \<Rightarrow>
                         Inr (self\<lparr>last_updated := Some now, size' := Some n,
                                    hash := file_hash, data := Some b\<rparr>, True)))
             else Inr (self, False))"

section \<open>The database and the environment of a sync\<close>

datatype signal = PreSync | PostSync

text \<open>
  The state outside the instance: the rows of the two tables, the sequence that numbers new
  \<open>DataFile\<close> rows, and the signals sent so far, each with the primary key of the
  instance it was sent for.
\<close>

record world =
  datasources :: "DataSource list"
  datafiles :: "DataFile list"
  next_pk :: nat
  signals :: "(signal \<times> nat) list"

text \<open>
  Modelled from the spec: a backend (\<open>core/data_backends.py\<close> is not among the source
  files) offers \<open>fetch()\<close>, which yields a local root path, valid for the scope of the
  sync, or raises; the spec names fetch errors, and nothing here depends on which exception
  it is.  A backend is the outcome of its \<open>fetch()\<close>: the exception, or the root path
  together with the file system as it is during the scope.
\<close>

type_synonym backend = "error + string \<times> node"

text \<open>
  What a sync takes from outside: the registry of backend classes by source type
  (\<open>registry['data_backends']\<close>), the hash function, and the clock, whose \<open>k\<close>-th
  reading during the run is \<open>clock k\<close>.
\<close>

record env =
  registry :: "string \<Rightarrow> (string \<Rightarrow> (string \<times> string) list \<Rightarrow> backend) option"
  sha256 :: "bytes \<Rightarrow> 256 word"
  clock :: "nat \<Rightarrow> timestamp"

definition ready_for_sync :: "DataSource \<Rightarrow> bool" where
  "ready_for_sync self \<longleftrightarrow> enabled self \<and> status self \<notin> set [Queued, Syncing]"

text \<open>Calling \<open>None\<close>, when the type has no registered backend, raises TypeError.\<close>

definition get_backend :: "env \<Rightarrow> DataSource \<Rightarrow> error + backend" where
  "get_backend e self =
     (case registry e (type' self) of
        None \<Rightarrow> Inl TypeError
      | Some backend_cls \<Rightarrow>
          Inr (backend_cls (source_url self) (case parameters self of None \<Rightarrow> [] | Some ps \<Rightarrow> ps)))"

text \<open>\<open>DataSource.objects.filter(pk=k).update(...)\<close>\<close>

definition update_datasource :: "nat \<Rightarrow> (DataSource \<Rightarrow> DataSource) \<Rightarrow> world \<Rightarrow> world" where
  "update_datasource k f w = w\<lparr>datasources := map (\<lambda>r. if pk r = k then f r else r) (datasources w)\<rparr>"

text \<open>
  \<open>self.datafiles.all()\<close>: the rows of the source, in the order of \<open>Meta.ordering\<close>
  (source, then path; paths are compared code point by code point).
\<close>

definition datafiles_all :: "DataSource \<Rightarrow> world \<Rightarrow> DataFile list" where
  "datafiles_all self w = sort_key path (filter (\<lambda>df. source df = pk self) (datafiles w))"

text \<open>\<open>DataFile.objects.bulk_update(objs, ('last_updated', 'size', 'hash', 'data'))\<close>\<close>

definition bulk_update :: "DataFile list \<Rightarrow> DataFile list \<Rightarrow> DataFile list" where
  "bulk_update objs table =
     map (\<lambda>row. case find (\<lambda>obj. df_pk obj = df_pk row) objs of
                   None \<Rightarrow> row
                 | Some obj \<Rightarrow> row\<lparr>last_updated := last_updated obj, size' := size' obj,
                                    hash := hash obj, data := data obj\<rparr>)
       table"

text \<open>\<open>DataFile.objects.filter(pk__in=ids).delete()\<close>\<close>

definition delete_pks :: "nat option list \<Rightarrow> DataFile list \<Rightarrow> DataFile list" where
  "delete_pks ids table = filter (\<lambda>row. df_pk row \<notin> set ids) table"

text \<open>
  \<open>DataFile.objects.bulk_create(objs)\<close>: each object is inserted with the next key of the
  sequence, and \<open>created\<close> (\<open>auto_now_add\<close>) is stamped with a reading of the clock.
\<close>

fun stamp_new :: "(nat \<Rightarrow> timestamp) \<Rightarrow> nat \<Rightarrow> nat \<Rightarrow> DataFile list \<Rightarrow> DataFile list" where
  "stamp_new clk n k [] = []"
| "stamp_new clk n k (obj # objs) =
     obj\<lparr>df_pk := Some n, created := Some (clk k)\<rparr> # stamp_new clk (Suc n) (Suc k) objs"

definition bulk_create :: "(nat \<Rightarrow> timestamp) \<Rightarrow> nat \<Rightarrow> DataFile list \<Rightarrow> world \<Rightarrow> world" where
  "bulk_create clk k objs w =
     w\<lparr>datafiles := datafiles w @ stamp_new clk (next_pk w) k objs,
       next_pk := next_pk w + length objs\<rparr>"

text \<open>
  \<open>datafile.full_clean()\<close> with what the class \<open>DataFile\<close> declares: \<open>path\<close> has at most
  1000 characters; \<open>size\<close> is within the range of a \<open>PositiveIntegerField\<close>;
  \<open>hash\<close> has at most 64 characters and matches \<open>^[0-9a-f]{64}$\<close>; the source is a
  row of the \<open>DataSource\<close> table, whose primary keys are \<open>source_pks\<close>; and no row has
  the same source and path.  Django validates no empty value of a field, so a missing size
  and an empty hash pass.
\<close>

definition is_hex64 :: "string \<Rightarrow> bool" where
  "is_hex64 h \<longleftrightarrow> length h = 64 \<and> list_all (\<lambda>c. c \<in> set ''0123456789abcdef'') h"

definition full_clean :: "nat list \<Rightarrow> DataFile list \<Rightarrow> DataFile \<Rightarrow> error + unit" where
  "full_clean source_pks table self =
     (if length (path self) \<le> 1000
         \<and> source self \<in> set source_pks
         \<and> (case size' self of None \<Rightarrow> True | Some n \<Rightarrow> n \<le> 2147483647)
         \<and> (hash self = [] \<or> is_hex64 (hash self))
         \<and> \<not> list_ex (\<lambda>row. source row = source self \<and> path row = path self
                                \<and> df_pk row \<noteq> df_pk self) table
      then Inr () else Inl ValidationError)"

section \<open>\<open>DataSource.sync\<close>\<close>

text \<open>
  The loop over the known files.  \<open>k\<close> counts the readings of the clock so far; the result
  is \<open>updated_files\<close>, \<open>deleted_file_ids\<close> and the count after the loop.  Only
  \<open>FileNotFoundError\<close> is caught.
\<close>

fun refresh_loop ::
  "env \<Rightarrow> node \<Rightarrow> string \<Rightarrow> nat \<Rightarrow> DataFile list
    \<Rightarrow> error + DataFile list \<times> nat option list \<times> nat" where
  "refresh_loop e fs local_path k [] = Inr ([], [], k)"
| "refresh_loop e fs local_path k (datafile # rest) =
     (case refresh_from_disk (sha256 e) fs (clock e k) datafile local_path of
        Inl FileNotFoundError \<Rightarrow>
          (case refresh_loop e fs local_path k rest of
             Inl err \<Rightarrow> Inl err
           | Inr (updated_files, deleted_file_ids, k') \<Rightarrow>
               Inr (updated_files, df_pk datafile # deleted_file_ids, k'))
      | Inl err \<Rightarrow> Inl (OSError err)
      | Inr (datafile', is_modified) \<Rightarrow>
          (case refresh_loop e fs local_path (if is_modified then Suc k else k) rest of
             Inl err \<Rightarrow> Inl err
           | Inr (updated_files, deleted_file_ids, k') \<Rightarrow>
               Inr (if is_modified then datafile' # updated_files else updated_files,
                    deleted_file_ids, k')))"

text \<open>
  The loop over the new paths: construct, refresh, validate, append.  The validation sees
  the primary keys of the sources and the table \<open>table\<close> as it is after the bulk update
  and the bulk deletion.
\<close>

fun create_loop ::
  "env \<Rightarrow> node \<Rightarrow> string \<Rightarrow> DataSource \<Rightarrow> nat list \<Rightarrow> DataFile list \<Rightarrow> nat \<Rightarrow> string list
    \<Rightarrow> error + DataFile list \<times> nat" where
  "create_loop e fs local_path self source_pks table k [] = Inr ([], k)"
| "create_loop e fs local_path self source_pks table k (p # ps) =
     (case refresh_from_disk (sha256 e) fs (clock e k) (new_DataFile (pk self) p) local_path of
        Inl err \<Rightarrow> Inl (OSError err)
      | Inr (datafile, is_modified) \<Rightarrow>
          (case full_clean source_pks table datafile of
             Inl err \<Rightarrow> Inl err
           | Inr u \<Rightarrow>
               (case create_loop e fs local_path self source_pks table (if is_modified then Suc k else k) ps of
                  Inl err \<Rightarrow> Inl err
                | Inr (new_datafiles, k') \<Rightarrow> Inr (datafile # new_datafiles, k'))))"

text \<open>
  What a run staged, kept for the statements below (Python's \<open>sync\<close> returns nothing):
  the local variables \<open>updated_files\<close>, \<open>deleted_file_ids\<close>, \<open>new_paths\<close> and
  \<open>new_datafiles\<close> at the end of the \<open>with\<close> block, and the number of clock readings.
\<close>

record report =
  updated_files :: "DataFile list"
  deleted_file_ids :: "nat option list"
  new_paths :: "string list"
  new_datafiles :: "DataFile list"
  readings :: nat

text \<open>
  The body of the \<open>with backend.fetch() as local_path\<close> block, on the world it starts
  from: the outcome, and the world when the block is left.
\<close>

definition sync_files ::
  "env \<Rightarrow> DataSource \<Rightarrow> node \<Rightarrow> string \<Rightarrow> world \<Rightarrow> (error + report) \<times> world" where
  "sync_files e self fs local_path w =
     (let data_files = datafiles_all self w;
          known_paths = remdups (map path data_files)
      in case refresh_loop e fs local_path 0 data_files of
           Inl err \<Rightarrow> (Inl err, w)
         | Inr (updated, deleted, k) \<Rightarrow>
             let w1 = w\<lparr>datafiles := bulk_update updated (datafiles w)\<rparr>;
                 w2 = w1\<lparr>datafiles := delete_pks deleted (datafiles w1)\<rparr>
             in case walk self fs local_path of
                  Inl err \<Rightarrow> (Inl err, w2)
                | Inr current_paths \<Rightarrow>
                    let new = filter (\<lambda>p. p \<notin> set known_paths) current_paths
                    in case create_loop e fs local_path self (map pk (datasources w2)) (datafiles w2) k new of
                         Inl err \<Rightarrow> (Inl err, w2)
                       | Inr (staged, k') \<Rightarrow>
                           (Inr \<lparr>updated_files = updated, deleted_file_ids = deleted,
                                  new_paths = new, new_datafiles = staged,
                                  readings = k' + length staged\<rparr>,
                            bulk_create (clock e) k' staged w2))"

text \<open>
  \<open>sync()\<close>: the outcome (the exception that leaves the call, or the report), the
  instance after the call, and the world after the call.
\<close>

definition sync :: "env \<Rightarrow> DataSource \<Rightarrow> world \<Rightarrow> (error + report) \<times> DataSource \<times> world" where
  "sync e self w =
     (if \<not> ready_for_sync self then (Inl SyncError, self, w)
      else
        let w1 = w\<lparr>signals := signals w @ [(PreSync, pk self)]\<rparr>;
            self1 = self\<lparr>status := Syncing\<rparr>;
            w2 = update_datasource (pk self1) (\<lambda>r. r\<lparr>status := status self1\<rparr>) w1
        in case get_backend e self1 of
             Inl err \<Rightarrow> (Inl err, self1, w2)
           | Inr (Inl err) \<Rightarrow> (Inl err, self1, w2)
           | Inr (Inr (local_path, fs)) \<Rightarrow>
               (case sync_files e self1 fs local_path w2 of
                  (Inl err, w3) \<Rightarrow> (Inl err, self1, w3)
                | (Inr rep, w3) \<Rightarrow>
                    let self2 = self1\<lparr>status := Completed,
                                       last_synced := Some (clock e (readings rep))\<rparr>;
                        w4 = update_datasource (pk self2)
                               (\<lambda>r. r\<lparr>status := status self2, last_synced := last_synced self2\<rparr>) w3;
                        w5 = w4\<lparr>signals := signals w4 @ [(PostSync, pk self2)]\<rparr>
                    in (Inr rep, self2, w5)))"

section \<open>Reading the data back: \<open>DataFile.get_data\<close>\<close>

text \<open>
  \<open>bytes.decode('utf-8')\<close> and \<open>yaml.safe_load\<close> are parameters: the decoder returns the
  text or fails (\<open>UnicodeDecodeError\<close>, which \<open>data_as_string\<close> turns into \<open>None\<close>); the
  parser takes what \<open>data_as_string\<close> returns and returns a value or raises.  An instance
  with no data has nothing to call \<open>tobytes()\<close> on, which raises AttributeError.
\<close>

definition data_as_string :: "(bytes \<Rightarrow> 't option) \<Rightarrow> DataFile \<Rightarrow> error + 't option" where
  "data_as_string decode_utf8 self =
     (case data self of None \<Rightarrow> Inl AttributeError | Some b \<Rightarrow> Inr (decode_utf8 b))"

definition get_data ::
  "(bytes \<Rightarrow> 't option) \<Rightarrow> ('t option \<Rightarrow> error + 'v) \<Rightarrow> DataFile \<Rightarrow> error + 'v" where
  "get_data decode_utf8 safe_load self =
     (case data_as_string decode_utf8 self of Inl err \<Rightarrow> Inl err | Inr t \<Rightarrow> safe_load t)"

section \<open>Vocabulary of the statements\<close>

text \<open>
  The world after the first steps of a run that passed the readiness check (the
  \<open>pre_sync\<close> signal is sent, the status \<open>syncing\<close> is persisted), and after its last
  steps (status and \<open>last_synced\<close> are persisted, the \<open>post_sync\<close> signal is sent).
\<close>

definition started :: "DataSource \<Rightarrow> world \<Rightarrow> world" where
  "started self w =
     update_datasource (pk self) (\<lambda>r. r\<lparr>status := Syncing\<rparr>)
       (w\<lparr>signals := signals w @ [(PreSync, pk self)]\<rparr>)"

definition finished :: "DataSource \<Rightarrow> timestamp \<Rightarrow> world \<Rightarrow> world" where
  "finished self t w =
     (update_datasource (pk self) (\<lambda>r. r\<lparr>status := Completed, last_synced := Some t\<rparr>) w)
       \<lparr>signals := signals w @ [(PostSync, pk self)]\<rparr>"

text \<open>The instance that \<open>refresh_from_disk\<close> leaves when the file has changed.\<close>

definition refreshed :: "(bytes \<Rightarrow> 256 word) \<Rightarrow> timestamp \<Rightarrow> bytes \<Rightarrow> DataFile \<Rightarrow> DataFile" where
  "refreshed H t b df =
     df\<lparr>last_updated := Some t, size' := Some (length b), hash := hexdigest (H b), data := Some b\<rparr>"

text \<open>The table after the bulk update and the bulk deletion that a run staged.\<close>

definition reconciled :: "report \<Rightarrow> DataFile list \<Rightarrow> DataFile list" where
  "reconciled rep table =
     delete_pks (deleted_file_ids rep) (bulk_update (updated_files rep) table)"

text \<open>
  A row is consistent when its hash is the hexadecimal digest of its stored data and its
  size is the number of bytes of that data; a table is consistent when its rows are and no
  two rows have the same source and path.
\<close>

definition row_consistent :: "(bytes \<Rightarrow> 256 word) \<Rightarrow> DataFile \<Rightarrow> bool" where
  "row_consistent H df =
     (case data df of
        None \<Rightarrow> False
      | Some b \<Rightarrow> hash df = hexdigest (H b) \<and> size' df = Some (length b))"

definition table_consistent :: "(bytes \<Rightarrow> 256 word) \<Rightarrow> DataFile list \<Rightarrow> bool" where
  "table_consistent H table \<longleftrightarrow>
     list_all (row_consistent H) table \<and> distinct (map (\<lambda>df. (source df, path df)) table)"

text \<open>
  The worlds the system can be in, as far as the \<open>DataFile\<close> table goes: the table starts
  empty; rows are written by \<open>sync\<close> only (the docstring of \<open>DataFile\<close>), whatever its
  outcome; the rows of a source go when the source is deleted (\<open>on_delete=CASCADE\<close>); and
  anything may happen to the rest of the world.
\<close>

inductive reachable :: "(bytes \<Rightarrow> 256 word) \<Rightarrow> world \<Rightarrow> bool" for H where
  initial: "datafiles w = [] \<Longrightarrow> reachable H w"
| synced: "reachable H w \<Longrightarrow> sha256 e = H \<Longrightarrow> sync e self w = (r, self', w') \<Longrightarrow> reachable H w'"
| elsewhere: "reachable H w \<Longrightarrow> datafiles w' = datafiles w \<Longrightarrow> reachable H w'"
| cascade: "reachable H w \<Longrightarrow> datafiles w' = filter (\<lambda>df. source df \<noteq> s) (datafiles w)
     \<Longrightarrow> reachable H w'"

text \<open>
  Shell patterns as the specification reads them: \<open>*\<close> matches any run of characters
  (the empty one included), \<open>?\<close> matches one character, a bracket expression matches one
  character of its class, a \<open>[\<close> that opens no bracket expression and every other character
  match themselves, and the pattern has to match the whole name.
\<close>

inductive glob :: "string \<Rightarrow> string \<Rightarrow> bool" where
  glob_end: "glob [] []"
| glob_star: "glob p n \<Longrightarrow> glob (CHR ''*'' # p) (u @ n)"
| glob_any: "glob p n \<Longrightarrow> glob (CHR ''?'' # p) (c # n)"
| glob_seq: "bracket p = Some (stuff, rest) \<Longrightarrow> item_matches (char_set stuff) c \<Longrightarrow> glob rest n
             \<Longrightarrow> glob (CHR ''['' # p) (c # n)"
| glob_open: "bracket p = None \<Longrightarrow> glob p n \<Longrightarrow> glob (CHR ''['' # p) (CHR ''['' # n)"
| glob_char: "c \<noteq> CHR ''*'' \<Longrightarrow> c \<noteq> CHR ''?'' \<Longrightarrow> c \<noteq> CHR ''['' \<Longrightarrow> glob p n
              \<Longrightarrow> glob (c # p) (c # n)"

text \<open>Rules written one per line: the lines joined by newlines.\<close>

fun join_lines :: "string list \<Rightarrow> string" where
  "join_lines [] = []"
| "join_lines [l] = l"
| "join_lines (l # ls) = l @ CHR 0x0A # join_lines ls"

text \<open>
  A bracket expression written from its elements, single characters and ranges \<open>lo-hi\<close>,
  and the characters that an element stands for.  The elements considered are those with
  neither a hyphen nor a closing bracket for a character, and with \<open>lo\<close> not above \<open>hi\<close>.
\<close>

datatype set_elem = One char | Range char char

fun elem_text :: "set_elem \<Rightarrow> string" where
  "elem_text (One c) = [c]"
| "elem_text (Range lo hi) = [lo, CHR ''-'', hi]"

definition set_text :: "set_elem list \<Rightarrow> string" where
  "set_text es = concat (map elem_text es)"

fun elem_has :: "set_elem \<Rightarrow> char \<Rightarrow> bool" where
  "elem_has (One d) c = (c = d)"
| "elem_has (Range lo hi) c = (lo \<le> c \<and> c \<le> hi)"

fun elem_ok :: "set_elem \<Rightarrow> bool" where
  "elem_ok (One c) = (c \<noteq> CHR ''-'' \<and> c \<noteq> CHR '']'')"
| "elem_ok (Range lo hi) = (lo \<noteq> CHR ''-'' \<and> lo \<noteq> CHR '']'' \<and> hi \<noteq> CHR ''-'' \<and> hi \<noteq> CHR '']'' \<and> lo \<le> hi)"

text \<open>
  The chunks, the class text and the ranges that \<open>translate\<close> should arrive at for such an
  expression; \<open>cur\<close> is the chunk that is being filled.
\<close>

fun elem_chunks :: "string \<Rightarrow> set_elem list \<Rightarrow> string list" where
  "elem_chunks cur [] = [cur]"
| "elem_chunks cur (One c # es) = elem_chunks (cur @ [c]) es"
| "elem_chunks cur (Range lo hi # es) = (cur @ [lo]) # elem_chunks [hi] es"

fun elem_items :: "set_elem list \<Rightarrow> class_item list" where
  "elem_items [] = []"
| "elem_items (One c # es) = Member c # elem_items es"
| "elem_items (Range lo hi # es) = Member lo # Hyphen # Member hi # elem_items es"

fun elem_range :: "set_elem \<Rightarrow> char \<times> char" where
  "elem_range (One c) = (c, c)"
| "elem_range (Range lo hi) = (lo, hi)"

section \<open>The scenario of the specification and a small installation\<close>

text \<open>
  The scenario: the rules \<open>.cache\<close> and \<open>*.tmp\<close>, one per line, and under the replica root
  \<open>/data\<close> the files \<open>a.txt\<close>, \<open>b.tmp\<close>, \<open>.cache\<close> and \<open>sub/.hidden/c.txt\<close>, with any
  contents.  In the second tree the hidden directory is directly under the root.
\<close>

definition scenario_rules :: string where
  "scenario_rules = ''.cache'' @ [CHR 0x0A] @ ''*.tmp''"

text \<open>
  A second text of rules, its lines separated by each of the line boundaries in turn
  (CR LF, LF, VT, CR, FF, FS, GS, RS, NEL), with an empty line between the CR and the FF.
\<close>

definition mixed_rules :: string where
  "mixed_rules =
     ''*.tmp'' @ [CHR 0x0D, CHR 0x0A] @ ''?.log'' @ [CHR 0x0A] @ ''[abc].txt'' @ [CHR 0x0B]
     @ ''[!0-9]x'' @ [CHR 0x0D, CHR 0x0C] @ ''data[0-9a-f]'' @ [CHR 0x1C] @ ''[]!]'' @ [CHR 0x1D]
     @ ''['' @ [CHR 0x1E] @ ''a[b'' @ [CHR 0x85] @ ''lit''"

definition scenario_fs :: "bytes \<Rightarrow> bytes \<Rightarrow> bytes \<Rightarrow> bytes \<Rightarrow> node" where
  "scenario_fs a b c d =
     Dir [] [Dir ''data''
       [File ''a.txt'' a, File ''b.tmp'' b, File ''.cache'' c,
        Dir ''sub'' [Dir ''.hidden'' [File ''c.txt'' d]]]]"

definition scenario_fs_top :: "bytes \<Rightarrow> bytes \<Rightarrow> bytes \<Rightarrow> bytes \<Rightarrow> node" where
  "scenario_fs_top a b c d =
     Dir [] [Dir ''data''
       [File ''a.txt'' a, File ''b.tmp'' b, File ''.cache'' c,
        Dir ''.hidden'' [Dir ''sub'' [File ''c.txt'' d]]]]"

definition example_source :: DataSource where
  "example_source =
     \<lparr>pk = 1, name = ''files'', type' = ''local'', source_url = ''/data'', status = New,
      enabled = True, ignore_rules = scenario_rules, parameters = None, last_synced = None\<rparr>"

text \<open>
  A small installation for the concrete runs below: a local backend on the scenario's
  tree, a git backend whose fetch fails, a clock, and a stand-in for the hash function
  (the statements about \<open>sync\<close> hold for every hash function; a concrete one is
  needed only to run the model).
\<close>

definition example_digest :: "bytes \<Rightarrow> 256 word" where
  "example_digest b = word_of_nat (length b)"

definition example_fs :: node where
  "example_fs = scenario_fs [104, 105] [2] [3] [4]"

definition example_env :: env where
  "example_env =
     \<lparr>registry = (\<lambda>t. if t = ''local'' then Some (\<lambda>url ps. Inr (url, example_fs))
                      else if t = ''git'' then Some (\<lambda>url ps. Inl (FetchError NetworkFailure))
                      else None),
      sha256 = example_digest,
      clock = (\<lambda>k. 100 + k)\<rparr>"

definition example_world :: world where
  "example_world = \<lparr>datasources = [example_source], datafiles = [], next_pk = 1, signals = []\<rparr>"

definition git_source :: DataSource where
  "git_source = example_source\<lparr>type' := ''git'', source_url := ''https://example.net/repo.git''\<rparr>"







text \<open>
  A second world for the same source: one row whose file has changed, one row whose file
  is gone, and one row of another source.  Then what a run on each of the two worlds
  stages and leaves.
\<close>

definition other_source :: DataSource where
  "other_source = example_source\<lparr>pk := 2, name := ''other''\<rparr>"

definition stale_row :: DataFile where
  "stale_row =
     \<lparr>df_pk = Some 1, created = Some 10, last_updated = Some 10, source = 1, path = ''a.txt'',
      size' = Some 0, hash = hexdigest (example_digest []), data = Some []\<rparr>"

definition gone_row :: DataFile where
  "gone_row =
     \<lparr>df_pk = Some 2, created = Some 10, last_updated = Some 10, source = 1, path = ''gone.txt'',
      size' = Some 1, hash = hexdigest (example_digest [7]), data = Some [7]\<rparr>"

definition foreign_row :: DataFile where
  "foreign_row =
     \<lparr>df_pk = Some 3, created = Some 20, last_updated = Some 20, source = 2, path = ''a.txt'',
      size' = Some 1, hash = hexdigest (example_digest [9]), data = Some [9]\<rparr>"

definition busy_world :: world where
  "busy_world =
     \<lparr>datasources = [example_source, other_source],
      datafiles = [stale_row, gone_row, foreign_row],
      next_pk = 4, signals = []\<rparr>"

definition busy_report :: report where
  "busy_report =
     \<lparr>updated_files = [refreshed example_digest 100 [104, 105] stale_row],
      deleted_file_ids = [Some 2],
      new_paths = [''sub/.hidden/c.txt''],
      new_datafiles = [refreshed example_digest 101 [4] (new_DataFile 1 ''sub/.hidden/c.txt'')],
      readings = 3\<rparr>"

definition busy_world_after :: world where
  "busy_world_after =
     \<lparr>datasources = [example_source\<lparr>status := Completed, last_synced := Some 103\<rparr>, other_source],
      datafiles =
        [refreshed example_digest 100 [104, 105] stale_row,
         foreign_row,
         (refreshed example_digest 101 [4] (new_DataFile 1 ''sub/.hidden/c.txt''))
           \<lparr>df_pk := Some 4, created := Some 102\<rparr>],
      next_pk = 5, signals = [(PreSync, 1), (PostSync, 1)]\<rparr>"

definition example_report :: report where
  "example_report =
     \<lparr>updated_files = [], deleted_file_ids = [],
      new_paths = [''sub/.hidden/c.txt'', ''a.txt''],
      new_datafiles =
        [refreshed example_digest 100 [4] (new_DataFile 1 ''sub/.hidden/c.txt''),
         refreshed example_digest 101 [104, 105] (new_DataFile 1 ''a.txt'')],
      readings = 4\<rparr>"

definition example_world_after :: world where
  "example_world_after =
     \<lparr>datasources = [example_source\<lparr>status := Completed, last_synced := Some 104\<rparr>],
      datafiles =
        [(refreshed example_digest 100 [4] (new_DataFile 1 ''sub/.hidden/c.txt''))
           \<lparr>df_pk := Some 1, created := Some 102\<rparr>,
         (refreshed example_digest 101 [104, 105] (new_DataFile 1 ''a.txt''))
           \<lparr>df_pk := Some 2, created := Some 103\<rparr>],
      next_pk = 3, signals = [(PreSync, 1), (PostSync, 1)]\<rparr>"

text \<open>
  A replica root \<open>/a\<close> whose name occurs again below it, in \<open>/a/b/a/f.txt\<close>, and a row for
  the path \<open>b/f.txt\<close>, which is no file.
\<close>

definition nested_fs :: node where
  "nested_fs = Dir [] [Dir ''a'' [Dir ''b'' [Dir ''a'' [File ''f.txt'' [1]]]]]"

definition nested_source :: DataSource where
  "nested_source = example_source\<lparr>source_url := ''/a'', ignore_rules := []\<rparr>"

definition nested_env :: env where
  "nested_env = example_env\<lparr>registry := (\<lambda>t. Some (\<lambda>url ps. Inr (url, nested_fs)))\<rparr>"

definition nested_row :: DataFile where
  "nested_row =
     \<lparr>df_pk = Some 1, created = Some 10, last_updated = Some 10, source = 1, path = ''b/f.txt'',
      size' = Some 1, hash = hexdigest (example_digest [1]), data = Some [1]\<rparr>"

definition nested_world :: world where
  "nested_world =
     \<lparr>datasources = [nested_source], datafiles = [nested_row], next_pk = 2, signals = []\<rparr>"

definition nested_world_after :: world where
  "nested_world_after =
     \<lparr>datasources = [nested_source\<lparr>status := Completed, last_synced := Some 100\<rparr>],
      datafiles = [], next_pk = 2, signals = [(PreSync, 1), (PostSync, 1)]\<rparr>"

text \<open>
  Stand-ins for the decoder and the parser of \<open>get_data\<close>, to run the model: ASCII for
  UTF-8, and the list of the lines of the text for the parsed document.
\<close>

definition example_decode :: "bytes \<Rightarrow> string option" where
  "example_decode b =
     (if list_all (\<lambda>x. unat x < 128) b then Some (map (\<lambda>x. char_of (unat x)) b) else None)"

definition example_load :: "string option \<Rightarrow> error + string list" where
  "example_load t = (case t of None \<Rightarrow> Inl AttributeError | Some s \<Rightarrow> Inr (splitlines s))"

section \<open>Digests\<close>

lemma length_hexdigest: "length (hexdigest w) = 64"
  by (simp add: hexdigest_def)

lemma hexdigest_not_empty: "hexdigest w \<noteq> []"
  using length_hexdigest [of w] by auto

lemma hex_char_hex: "n < 16 \<Longrightarrow> hex_char n \<in> set ''0123456789abcdef''"
  unfolding hex_char_def by (rule nth_mem) simp

lemma is_hex64_hexdigest: "is_hex64 (hexdigest w)"
proof -
  have "unat (take_bit 4 (x :: 256 word)) < 16" for x
  proof -
    have "take_bit 4 (unat x) < 2 ^ 4"
      by (rule take_bit_nat_less_exp)
    then show ?thesis by (simp add: unsigned_take_bit_eq)
  qed
  then show ?thesis
    unfolding is_hex64_def hexdigest_def list_all_iff
    by (auto intro!: hex_char_hex simp del: set_simps)
qed

section \<open>The ignore rules\<close>

text \<open>
  The matcher against the shell patterns of the specification: a star of the translated
  pattern takes any prefix of the name, every other item takes one character.
\<close>

lemma glob_match_star:
  "glob_match (Star # ts) n \<longleftrightarrow> (\<exists>u v. n = u @ v \<and> glob_match ts v)"
proof (induction n)
  case Nil
  show ?case by simp
next
  case (Cons c n)
  show ?case
  proof
    assume "glob_match (Star # ts) (c # n)"
    then consider "glob_match ts (c # n)" | "glob_match (Star # ts) n" by auto
    then show "\<exists>u v. c # n = u @ v \<and> glob_match ts v"
    proof cases
      case 1
      then have "c # n = [] @ (c # n) \<and> glob_match ts (c # n)" by simp
      then show ?thesis by blast
    next
      case 2
      with Cons.IH obtain u v where "n = u @ v" "glob_match ts v" by blast
      then have "c # n = (c # u) @ v \<and> glob_match ts v" by simp
      then show ?thesis by blast
    qed
  next
    assume "\<exists>u v. c # n = u @ v \<and> glob_match ts v"
    then obtain u v where uv: "c # n = u @ v" and m: "glob_match ts v" by blast
    show "glob_match (Star # ts) (c # n)"
    proof (cases u)
      case Nil
      with uv m have "glob_match ts (c # n)" by simp
      then show ?thesis by simp
    next
      case (Cons d u')
      with uv have "n = u' @ v" by simp
      with m Cons.IH have "glob_match (Star # ts) n" by blast
      then show ?thesis by simp
    qed
  qed
qed

lemma glob_match_star_star: "glob_match (Star # Star # ts) n = glob_match (Star # ts) n"
proof -
  have "glob_match (Star # Star # ts) n \<longleftrightarrow> (\<exists>u v. n = u @ v \<and> (\<exists>u' v'. v = u' @ v' \<and> glob_match ts v'))"
    by (simp only: glob_match_star)
  also have "\<dots> \<longleftrightarrow> (\<exists>u v. n = u @ v \<and> glob_match ts v)"
  proof
    assume "\<exists>u v. n = u @ v \<and> (\<exists>u' v'. v = u' @ v' \<and> glob_match ts v')"
    then obtain u u' v' where "n = (u @ u') @ v'" "glob_match ts v'" by auto
    then show "\<exists>u v. n = u @ v \<and> glob_match ts v" by blast
  next
    assume "\<exists>u v. n = u @ v \<and> glob_match ts v"
    then obtain u v where "n = u @ v" "v = [] @ v" "glob_match ts v" by auto
    then show "\<exists>u v. n = u @ v \<and> (\<exists>u' v'. v = u' @ v' \<and> glob_match ts v')" by blast
  qed
  also have "\<dots> \<longleftrightarrow> glob_match (Star # ts) n"
    by (simp only: glob_match_star)
  finally show ?thesis .
qed

lemma translate_star: "glob_match (translate (CHR ''*'' # p)) n = glob_match (Star # translate p) n"
  by (simp add: glob_match_star_star split: list.splits glob_item.splits)

lemma glob_match_item:
  "t \<noteq> Star \<Longrightarrow> glob_match (t # ts) n \<longleftrightarrow> (\<exists>c v. n = c # v \<and> item_matches t c \<and> glob_match ts v)"
  by (cases t; cases n) simp_all

lemma char_set_not_Star: "char_set stuff \<noteq> Star"
  by (simp add: char_set_def Let_def split: list.splits class_item.splits)

lemma glob_imp_match: "glob p n \<Longrightarrow> glob_match (translate p) n"
proof (induction rule: glob.induct)
  case glob_end
  show ?case by simp
next
  case (glob_star p n u)
  then show ?case unfolding translate_star glob_match_star by blast
next
  case (glob_any p n c)
  then show ?case by simp
next
  case (glob_seq p stuff rest c n)
  then show ?case by (simp add: glob_match_item char_set_not_Star)
next
  case (glob_open p n)
  then show ?case by simp
next
  case (glob_char c p n)
  then show ?case by simp
qed

lemma match_imp_glob: "glob_match (translate p) n \<Longrightarrow> glob p n"
proof (induction p arbitrary: n rule: translate.induct)
  case 1
  then show ?case by (simp add: glob_end)
next
  case (2 c p)
  show ?case
  proof (cases "c = CHR ''*''")
    case True
    with "2.prems" have "glob_match (Star # translate p) n" by (simp only: translate_star)
    then obtain u v where n: "n = u @ v" and m: "glob_match (translate p) v"
      unfolding glob_match_star by blast
    from True m have "glob p v" by (rule "2.IH"(1))
    then show ?thesis unfolding True n by (rule glob_star)
  next
    case star: False
    show ?thesis
    proof (cases "c = CHR ''?''")
      case True
      with "2.prems" star obtain d v where n: "n = d # v" and m: "glob_match (translate p) v"
        by (auto simp: glob_match_item)
      from star True m have "glob p v" by (rule "2.IH"(2))
      then show ?thesis unfolding True n by (rule glob_any)
    next
      case any: False
      show ?thesis
      proof (cases "c = CHR ''[''")
        case True
        show ?thesis
        proof (cases "bracket p")
          case None
          with "2.prems" star any True obtain v where n: "n = CHR ''['' # v" and m: "glob_match (translate p) v"
            by (auto simp: glob_match_item)
          from star any True None m have "glob p v" by (rule "2.IH"(3))
          with None show ?thesis unfolding True n by (rule glob_open)
        next
          case (Some sr)
          obtain stuff rest where sr: "sr = (stuff, rest)" by (cases sr)
          from "2.prems" star any True Some sr obtain d v
            where n: "n = d # v" and i: "item_matches (char_set stuff) d" and m: "glob_match (translate rest) v"
            by (auto simp: glob_match_item char_set_not_Star)
          from star any True Some [unfolded sr] refl m have "glob rest v" by (rule "2.IH"(4))
          with Some [unfolded sr] i show ?thesis unfolding True n by (rule glob_seq)
        qed
      next
        case False
        with "2.prems" star any obtain v where n: "n = c # v" and m: "glob_match (translate p) v"
          by (auto simp: glob_match_item)
        from star any False m have "glob p v" by (rule "2.IH"(5))
        with star any False show ?thesis unfolding n by (rule glob_char)
      qed
    qed
  qed
qed

lemma fnmatchcase_glob: "fnmatchcase n p \<longleftrightarrow> glob p n"
  unfolding fnmatchcase_def using glob_imp_match match_imp_glob by blast


lemma splitlines_from_line:
  "\<forall>c \<in> set l. \<not> is_linebreak c \<Longrightarrow> splitlines_from cur (l @ CHR 0x0A # r) = splitlines_from (rev l @ cur) (CHR 0x0A # r)"
proof (induction l arbitrary: cur)
  case Nil
  show ?case by simp
next
  case (Cons c l)
  from Cons.prems have c: "\<not> is_linebreak c" and l: "\<forall>c \<in> set l. \<not> is_linebreak c" by simp_all
  obtain d cs where d: "l @ CHR 0x0A # r = d # cs" by (cases "l @ CHR 0x0A # r") simp_all
  from c have "splitlines_from cur (c # d # cs) = splitlines_from (c # cur) (d # cs)"
    by (auto simp: is_linebreak_def)
  with Cons.IH [OF l, of "c # cur"] show ?case by (simp add: d [symmetric])
qed

lemma splitlines_from_last:
  "\<forall>c \<in> set l. \<not> is_linebreak c \<Longrightarrow> rev l @ cur \<noteq> [] \<Longrightarrow> splitlines_from cur l = [rev (rev l @ cur)]"
proof (induction l arbitrary: cur)
  case Nil
  then show ?case by simp
next
  case (Cons c l)
  from Cons.prems have c: "\<not> is_linebreak c" and l: "\<forall>c \<in> set l. \<not> is_linebreak c" by simp_all
  show ?case
  proof (cases l)
    case Nil
    with c show ?thesis by simp
  next
    case (Cons d cs)
    from c have "splitlines_from cur (c # d # cs) = splitlines_from (c # cur) (d # cs)"
      by (auto simp: is_linebreak_def)
    with Cons.IH [OF l, of "c # cur"] Cons show ?thesis by simp
  qed
qed

lemma join_lines_not_empty: "ls \<noteq> [] \<Longrightarrow> last ls \<noteq> [] \<Longrightarrow> join_lines ls \<noteq> []"
  by (induction ls rule: join_lines.induct) simp_all

lemma splitlines_join_lines:
  assumes "\<forall>l \<in> set ls. \<forall>c \<in> set l. \<not> is_linebreak c" and "ls \<noteq> [] \<longrightarrow> last ls \<noteq> []"
  shows "splitlines (join_lines ls) = ls"
  using assms
proof (induction ls rule: join_lines.induct)
  case 1
  show ?case by (simp add: splitlines_def)
next
  case (2 l)
  then show ?case by (simp add: splitlines_def splitlines_from_last)
next
  case (3 l m ls)
  from "3.prems" have l: "\<forall>c \<in> set l. \<not> is_linebreak c" by simp
  from "3.prems" have rest: "\<forall>l \<in> set (m # ls). \<forall>c \<in> set l. \<not> is_linebreak c"
    and lst: "last (m # ls) \<noteq> []" by simp_all
  from lst have "join_lines (m # ls) \<noteq> []" by (intro join_lines_not_empty) simp_all
  then obtain d cs where d: "join_lines (m # ls) = d # cs" by (cases "join_lines (m # ls)") simp_all
  have "splitlines_from (rev l) (CHR 0x0A # d # cs) = l # splitlines_from [] (d # cs)"
    by (simp add: is_linebreak_def)
  moreover have "splitlines (join_lines (m # ls)) = m # ls"
    using rest lst by (intro "3.IH") simp_all
  ultimately show ?case
    using splitlines_from_line [OF l, of "[]" "join_lines (m # ls)"]
    by (simp add: splitlines_def d)
qed

lemma scan_close_plain:
  "CHR '']'' \<notin> set s \<Longrightarrow> scan_close acc (s @ CHR '']'' # r) = Some (rev acc @ s, r)"
  by (induction s arbitrary: acc) auto

lemma bracket_plain:
  assumes "seq \<noteq> []" and "hd seq \<noteq> CHR ''!''" and "CHR '']'' \<notin> set seq"
  shows "bracket (seq @ CHR '']'' # r) = Some (seq, r)"
proof -
  from assms obtain a s where seq: "seq = a # s" and a: "a \<noteq> CHR ''!''" "a \<noteq> CHR '']''"
    and s: "CHR '']'' \<notin> set s" by (cases seq) auto
  from s have "scan_close [a] (s @ CHR '']'' # r) = Some (rev [a] @ s, r)" by (rule scan_close_plain)
  with a show ?thesis by (simp add: bracket_def seq)
qed

lemma bracket_negated:
  assumes "seq \<noteq> []" and "CHR '']'' \<notin> set seq"
  shows "bracket (CHR ''!'' # seq @ CHR '']'' # r) = Some (CHR ''!'' # seq, r)"
proof -
  from assms obtain a s where seq: "seq = a # s" and a: "a \<noteq> CHR '']''"
    and s: "CHR '']'' \<notin> set s" by (cases seq) auto
  from s have "scan_close [a] (s @ CHR '']'' # r) = Some (rev [a] @ s, r)" by (rule scan_close_plain)
  with a show ?thesis by (simp add: bracket_def seq)
qed

lemma chunk_scan_plain: "CHR ''-'' \<notin> set s \<Longrightarrow> chunk_scan k acc s = [rev acc @ s]"
  by (induction s arbitrary: k acc) auto

lemma class_ranges_members: "class_ranges (map Member s) = map (\<lambda>c. (c, c)) s"
  by (induction s rule: induct_list012) simp_all

lemma item_matches_members:
  "item_matches (CharSet negated (map (\<lambda>c. (c, c)) s)) c \<longleftrightarrow> (c \<in> set s) \<noteq> negated"
  by auto

lemma char_set_plain:
  assumes "seq \<noteq> []" and "hd seq \<noteq> CHR ''!''" and "CHR ''-'' \<notin> set seq"
  shows "char_set seq = CharSet False (map (\<lambda>c. (c, c)) seq)"
proof -
  from assms obtain a s where seq: "seq = a # s" and a: "a \<noteq> CHR ''!''" by (cases seq) auto
  from assms(3) have "chunks seq = [seq]"
    unfolding chunks_def by (simp add: chunk_scan_plain)
  with a show ?thesis
    unfolding char_set_def by (simp add: seq class_ranges_members [of "a # s", simplified])
qed

lemma char_set_negated:
  assumes "CHR ''-'' \<notin> set seq"
  shows "char_set (CHR ''!'' # seq) = CharSet True (map (\<lambda>c. (c, c)) seq)"
proof -
  from assms have "chunks (CHR ''!'' # seq) = [CHR ''!'' # seq]"
    unfolding chunks_def by (simp add: chunk_scan_plain)
  then show ?thesis
    unfolding char_set_def by (simp add: class_ranges_members)
qed

lemma char_set_range:
  assumes "lo \<noteq> CHR ''!''"
  shows "item_matches (char_set [lo, CHR ''-'', hi]) c \<longleftrightarrow> lo \<le> c \<and> c \<le> hi"
proof -
  from assms have "chunks [lo, CHR ''-'', hi] = [[lo], [hi]]"
    unfolding chunks_def by simp
  then show ?thesis
    unfolding char_set_def using assms by (cases "hi < lo") auto
qed

lemma glob_match_single:
  "t \<noteq> Star \<Longrightarrow> glob_match [t] n \<longleftrightarrow> (\<exists>c. n = [c] \<and> item_matches t c)"
  by (cases t; cases n) auto

lemma fnmatchcase_plain_set:
  assumes "seq \<noteq> []" and "hd seq \<noteq> CHR ''!''" and "CHR ''-'' \<notin> set seq" and "CHR '']'' \<notin> set seq"
  shows "fnmatchcase n (CHR ''['' # seq @ '']'') \<longleftrightarrow> (\<exists>c \<in> set seq. n = [c])"
proof -
  from assms have "bracket (seq @ '']'') = Some (seq, [])" by (intro bracket_plain)
  then have tr: "translate (CHR ''['' # seq @ '']'') = [char_set seq]" by simp
  have "glob_match [CharSet False (map (\<lambda>c. (c, c)) seq)] n \<longleftrightarrow> (\<exists>c \<in> set seq. n = [c])"
    using glob_match_single [of "CharSet False (map (\<lambda>c. (c, c)) seq)" n]
    unfolding item_matches_members by auto
  then show ?thesis
    unfolding fnmatchcase_def tr char_set_plain [OF assms(1-3)] .
qed

lemma fnmatchcase_negated_set:
  assumes "seq \<noteq> []" and "CHR ''-'' \<notin> set seq" and "CHR '']'' \<notin> set seq"
  shows "fnmatchcase n (CHR ''['' # CHR ''!'' # seq @ '']'') \<longleftrightarrow> (\<exists>c. c \<notin> set seq \<and> n = [c])"
proof -
  from assms have "bracket (CHR ''!'' # seq @ '']'') = Some (CHR ''!'' # seq, [])" by (intro bracket_negated)
  then have tr: "translate (CHR ''['' # CHR ''!'' # seq @ '']'') = [char_set (CHR ''!'' # seq)]" by simp
  have "glob_match [CharSet True (map (\<lambda>c. (c, c)) seq)] n \<longleftrightarrow> (\<exists>c. c \<notin> set seq \<and> n = [c])"
    using glob_match_single [of "CharSet True (map (\<lambda>c. (c, c)) seq)" n]
    unfolding item_matches_members by auto
  then show ?thesis
    unfolding fnmatchcase_def tr char_set_negated [OF assms(2)] .
qed

lemma fnmatchcase_range:
  assumes "lo \<noteq> CHR ''!''" and "hi \<noteq> CHR '']''"
  shows "fnmatchcase n [CHR ''['', lo, CHR ''-'', hi, CHR '']''] \<longleftrightarrow> (\<exists>c. lo \<le> c \<and> c \<le> hi \<and> n = [c])"
proof -
  from assms have "bracket [lo, CHR ''-'', hi, CHR '']''] = Some ([lo, CHR ''-'', hi], [])"
    by (simp add: bracket_def)
  then have tr: "translate [CHR ''['', lo, CHR ''-'', hi, CHR '']''] = [char_set [lo, CHR ''-'', hi]]" by simp
  have "glob_match [char_set [lo, CHR ''-'', hi]] n \<longleftrightarrow> (\<exists>c. lo \<le> c \<and> c \<le> hi \<and> n = [c])"
    unfolding glob_match_single [OF char_set_not_Star] char_set_range [OF assms(1)] by auto
  then show ?thesis
    unfolding fnmatchcase_def tr .
qed


lemma mixed_lines:
  "splitlines mixed_rules =
     [''*.tmp'', ''?.log'', ''[abc].txt'', ''[!0-9]x'', [], ''data[0-9a-f]'', ''[]!]'', ''['', ''a[b'', ''lit'']"
  by code_simp

lemma mixed_decisions:
  "map (\<lambda>n. startswith_dot n \<or> list_ex (fnmatchcase n) (splitlines mixed_rules))
     [''x.tmp'', ''x.tmpl'', ''a.log'', ''ab.log'', ''b.txt'', ''d.txt'', ''B.txt'', ''ax'', ''5x'',
      ''data7'', ''datag'', ''dataA'', '']'', ''!'', ''a'', ''['', ''a[b'', ''lit'', ''LIT'',
      ''?.log'', ''.x'', ''abcx'']
   = [True, False, True, False, True, False, False, True, False,
      True, False, False, True, True, False, True, True, True, False,
      True, True, False]"
  by code_simp

lemma empty_range_instances:
  "fnmatchcase ''y'' ''[z-a!x]''" "\<not> fnmatchcase ''x'' ''[z-a!x]''" "fnmatchcase ''q'' ''[a--!]''"
  "fnmatchcase ''[!]'' ''[!]''" "\<not> fnmatchcase ''z'' ''[z-a]''"
  by code_simp+

lemma ignore_iff:
  "ignore self filename \<longleftrightarrow>
     startswith_dot filename \<or> (\<exists>rule \<in> set (splitlines (ignore_rules self)). fnmatchcase filename rule)"
  by (simp add: ignore_def list_ex_iff)

text \<open>Bracket expressions written from their elements.\<close>

lemma set_text_simps [simp]:
  "set_text [] = []" "set_text (One c # es) = c # set_text es"
  "set_text (Range lo hi # es) = lo # CHR ''-'' # hi # set_text es"
  by (simp_all add: set_text_def)

lemma chunk_scan_elems:
  "list_all elem_ok es \<Longrightarrow> skip \<le> 1 \<Longrightarrow> chunk_scan skip acc (set_text es) = elem_chunks (rev acc) es"
proof (induction es arbitrary: skip acc)
  case Nil
  show ?case by simp
next
  case (Cons x es)
  from Cons.prems have ok: "elem_ok x" and rest: "list_all elem_ok es" by simp_all
  show ?case
  proof (cases x)
    case (One c)
    with ok Cons.IH [OF rest, of "skip - 1" "c # acc"] Cons.prems(2) show ?thesis by simp
  next
    case (Range lo hi)
    with ok Cons.IH [OF rest, of 1 "[hi]"] Cons.prems(2) show ?thesis by simp
  qed
qed

lemma elem_chunks_head: "\<exists>d ds. elem_chunks (h # cur) es = (h # d) # ds"
  by (induction es arbitrary: cur rule: elem_items.induct) simp_all

lemma drop_empty_ranges_elems:
  "list_all elem_ok es \<Longrightarrow> drop_empty_ranges (elem_chunks cur es) = elem_chunks cur es"
proof (induction es arbitrary: cur rule: elem_items.induct)
  case 1
  show ?case by simp
next
  case (2 c es)
  then show ?case by simp
next
  case (3 lo hi es)
  from "3.prems" have le: "lo \<le> hi" and rest: "list_all elem_ok es" by simp_all
  obtain d ds where h: "elem_chunks [hi] es = (hi # d) # ds" using elem_chunks_head by blast
  from "3.IH" [OF rest, of "[hi]"] h have "drop_empty_ranges ((hi # d) # ds) = (hi # d) # ds" by simp
  with le show ?case by (simp add: h)
qed

lemma class_items_elems: "class_items (elem_chunks cur es) = map Member cur @ elem_items es"
proof (induction es arbitrary: cur rule: elem_items.induct)
  case 1
  show ?case by simp
next
  case (2 c es)
  then show ?case by simp
next
  case (3 lo hi es)
  obtain d ds where h: "elem_chunks [hi] es = (hi # d) # ds" using elem_chunks_head by blast
  from "3.IH" [of "[hi]"] h have "class_items ((hi # d) # ds) = Member hi # elem_items es" by simp
  then show ?case by (simp add: h)
qed

lemma class_ranges_elems: "class_ranges (elem_items es) = map elem_range es"
proof (induction es rule: elem_items.induct)
  case 1
  show ?case by simp
next
  case (2 c es)
  then show ?case by (cases es rule: elem_items.cases) simp_all
next
  case (3 lo hi es)
  then show ?case by simp
qed

lemma item_matches_elems:
  "item_matches (CharSet negated (map elem_range es)) c \<longleftrightarrow> (\<exists>e \<in> set es. elem_has e c) \<noteq> negated"
proof -
  have "(\<exists>(lo, hi) \<in> set (map elem_range es). lo \<le> c \<and> c \<le> hi) \<longleftrightarrow> (\<exists>e \<in> set es. elem_has e c)"
  proof (induction es)
    case Nil
    show ?case by simp
  next
    case (Cons x es)
    then show ?case by (cases x) auto
  qed
  then show ?thesis by simp
qed

lemma set_text_chars:
  "list_all elem_ok es \<Longrightarrow> CHR '']'' \<notin> set (set_text es)"
  by (induction es rule: elem_items.induct) auto

lemma char_set_elems:
  assumes "list_all elem_ok es" and "es \<noteq> []" and "hd (set_text es) \<noteq> CHR ''!''"
  shows "char_set (set_text es) = CharSet False (map elem_range es)"
proof -
  from assms(2,3) obtain a t where t: "set_text es = a # t" and a: "a \<noteq> CHR ''!''"
    by (cases es rule: elem_items.cases) auto
  from a have "chunks (set_text es) = chunk_scan 1 [] (set_text es)"
    unfolding chunks_def t by simp
  also from assms(1) have "\<dots> = elem_chunks [] es" by (simp add: chunk_scan_elems)
  finally have items: "class_items (drop_empty_ranges (chunks (set_text es))) = elem_items es"
    using assms(1) by (simp add: drop_empty_ranges_elems class_items_elems)
  from t a obtain r where r: "elem_items es = Member a # r"
    by (cases es rule: elem_items.cases) auto
  have "char_set (set_text es) = CharSet False (class_ranges (elem_items es))"
    unfolding char_set_def items using r a by simp
  then show ?thesis by (simp only: class_ranges_elems)
qed

lemma char_set_not_elems:
  assumes "list_all elem_ok es"
  shows "char_set (CHR ''!'' # set_text es) = CharSet True (map elem_range es)"
proof -
  have "chunks (CHR ''!'' # set_text es) = chunk_scan 1 ''!'' (set_text es)"
    unfolding chunks_def by simp
  also from assms have "\<dots> = elem_chunks ''!'' es" by (simp add: chunk_scan_elems)
  finally have "class_items (drop_empty_ranges (chunks (CHR ''!'' # set_text es))) = Member CHR ''!'' # elem_items es"
    using assms by (simp add: drop_empty_ranges_elems class_items_elems)
  then show ?thesis
    unfolding char_set_def by (simp add: class_ranges_elems)
qed

lemma fnmatchcase_elems:
  assumes "list_all elem_ok es" and "es \<noteq> []" and "hd (set_text es) \<noteq> CHR ''!''"
  shows "fnmatchcase n (CHR ''['' # set_text es @ '']'') \<longleftrightarrow> (\<exists>c. n = [c] \<and> (\<exists>e \<in> set es. elem_has e c))"
proof -
  from assms(2) have ne: "set_text es \<noteq> []" by (cases es rule: elem_items.cases) simp_all
  from ne assms(3) set_text_chars [OF assms(1)] have "bracket (set_text es @ '']'') = Some (set_text es, [])"
    by (intro bracket_plain)
  then have tr: "translate (CHR ''['' # set_text es @ '']'') = [char_set (set_text es)]" by simp
  show ?thesis
    unfolding fnmatchcase_def tr char_set_elems [OF assms]
    using glob_match_single [of "CharSet False (map elem_range es)" n]
    unfolding item_matches_elems by auto
qed

lemma fnmatchcase_not_elems:
  assumes "list_all elem_ok es" and "es \<noteq> []"
  shows "fnmatchcase n (CHR ''['' # CHR ''!'' # set_text es @ '']'') \<longleftrightarrow> (\<exists>c. n = [c] \<and> \<not> (\<exists>e \<in> set es. elem_has e c))"
proof -
  from assms(2) have ne: "set_text es \<noteq> []" by (cases es rule: elem_items.cases) simp_all
  from ne set_text_chars [OF assms(1)] have "bracket (CHR ''!'' # set_text es @ '']'') = Some (CHR ''!'' # set_text es, [])"
    by (intro bracket_negated)
  then have tr: "translate (CHR ''['' # CHR ''!'' # set_text es @ '']'') = [char_set (CHR ''!'' # set_text es)]" by simp
  show ?thesis
    unfolding fnmatchcase_def tr char_set_not_elems [OF assms(1)]
    using glob_match_single [of "CharSet True (map elem_range es)" n]
    unfolding item_matches_elems by auto
qed

lemma bracket_table:
  "map (\<lambda>p. map (\<lambda>n. fnmatchcase n p) [''a'', ''c'', ''d'', ''x'', ''-'', '']'', ''^'', ''!''])
        [''[z-a!x]'', ''[a--!]'', ''[!z-a]'', ''[xz-a]'', ''[b-a-c]'', ''[a-c-e]'', ''[--a]'',
         ''[a-]'', ''[!]'', ''[]]'', ''[^a]'', ''[!]a]'', ''[!-a]'', ''[a-b-c-d]'']
      = [[True, True, True, False, True, True, True, True],
         [True, True, True, True, True, True, True, True],
         [True, True, True, True, True, True, True, True],
         [False, False, False, True, False, False, False, False],
         [False, True, False, False, True, False, False, False],
         [True, True, False, False, True, False, False, False],
         [True, False, False, False, True, True, True, False],
         [True, False, False, False, True, False, False, False],
         [False, False, False, False, False, False, False, False],
         [False, False, False, False, False, True, False, False],
         [True, False, False, False, False, False, True, False],
         [False, True, True, True, True, False, True, True],
         [False, True, True, True, False, True, True, True],
         [True, True, True, False, True, False, False, False]]"
  by code_simp

text \<open>
  Claim C6.  A filename that starts with a dot is ignored whatever the rules are; any
  other filename is ignored exactly when some line of the rules matches it, and a line
  matches as the shell pattern it is (\<open>glob\<close>), characters compared as they are.  For
  rules written one per line and joined by newlines, the lines are the rules.  A bracket
  expression of plain characters matches exactly these characters, after \<open>!\<close> exactly the
  others, and \<open>[lo-hi]\<close> exactly the characters from \<open>lo\<close> to \<open>hi\<close>; an expression written
  from several characters and ranges matches exactly the characters of its elements, and
  after \<open>!\<close> exactly the others; a range that is empty
  is dropped before the \<open>!\<close> is looked for, so \<open>[z-a!x]\<close> matches every character but
  \<open>x\<close>.  On the rules of \<open>mixed_rules\<close>, whose lines end in each of the line boundaries,
  the decisions are as listed; and the rule \<open>*.txt\<close> ignores \<open>notes.txt\<close> and does not
  ignore \<open>notes.TXT\<close>.
\<close>

theorem ignore_decision:
  "(ignore self filename \<longleftrightarrow>
      startswith_dot filename
      \<or> (\<exists>rule \<in> set (splitlines (ignore_rules self)). fnmatchcase filename rule))
   \<and> ignore self (CHR ''.'' # rest)
   \<and> (fnmatchcase filename rule \<longleftrightarrow> glob rule filename)
   \<and> ((\<forall>l \<in> set ls. \<forall>c \<in> set l. \<not> is_linebreak c) \<and> (ls \<noteq> [] \<longrightarrow> last ls \<noteq> []) \<longrightarrow>
        splitlines (join_lines ls) = ls
        \<and> (ignore (self\<lparr>ignore_rules := join_lines ls\<rparr>) filename \<longleftrightarrow>
             startswith_dot filename \<or> (\<exists>rule \<in> set ls. glob rule filename)))
   \<and> (seq \<noteq> [] \<and> hd seq \<noteq> CHR ''!'' \<and> CHR ''-'' \<notin> set seq \<and> CHR '']'' \<notin> set seq \<longrightarrow>
        (fnmatchcase filename (''['' @ seq @ '']'') \<longleftrightarrow> (\<exists>c \<in> set seq. filename = [c])))
   \<and> (seq \<noteq> [] \<and> CHR ''-'' \<notin> set seq \<and> CHR '']'' \<notin> set seq \<longrightarrow>
        (fnmatchcase filename (''[!'' @ seq @ '']'') \<longleftrightarrow> (\<exists>c. c \<notin> set seq \<and> filename = [c])))
   \<and> (lo \<noteq> CHR ''!'' \<and> hi \<noteq> CHR '']'' \<longrightarrow>
        (fnmatchcase filename [CHR ''['', lo, CHR ''-'', hi, CHR '']''] \<longleftrightarrow>
           (\<exists>c. lo \<le> c \<and> c \<le> hi \<and> filename = [c])))
   \<and> (list_all elem_ok es \<and> es \<noteq> [] \<and> hd (set_text es) \<noteq> CHR ''!'' \<longrightarrow>
        (fnmatchcase filename (''['' @ set_text es @ '']'') \<longleftrightarrow>
           (\<exists>c. filename = [c] \<and> (\<exists>e \<in> set es. elem_has e c))))
   \<and> (list_all elem_ok es \<and> es \<noteq> [] \<longrightarrow>
        (fnmatchcase filename (''[!'' @ set_text es @ '']'') \<longleftrightarrow>
           (\<exists>c. filename = [c] \<and> \<not> (\<exists>e \<in> set es. elem_has e c))))
   \<and> fnmatchcase ''y'' ''[z-a!x]'' \<and> \<not> fnmatchcase ''x'' ''[z-a!x]'' \<and> fnmatchcase ''q'' ''[a--!]''
   \<and> map (\<lambda>p. map (\<lambda>n. fnmatchcase n p) [''a'', ''c'', ''d'', ''x'', ''-'', '']'', ''^'', ''!''])
         [''[z-a!x]'', ''[a--!]'', ''[!z-a]'', ''[xz-a]'', ''[b-a-c]'', ''[a-c-e]'', ''[--a]'',
          ''[a-]'', ''[!]'', ''[]]'', ''[^a]'', ''[!]a]'', ''[!-a]'', ''[a-b-c-d]'']
       = [[True, True, True, False, True, True, True, True],
          [True, True, True, True, True, True, True, True],
          [True, True, True, True, True, True, True, True],
          [False, False, False, True, False, False, False, False],
          [False, True, False, False, True, False, False, False],
          [True, True, False, False, True, False, False, False],
          [True, False, False, False, True, True, True, False],
          [True, False, False, False, True, False, False, False],
          [False, False, False, False, False, False, False, False],
          [False, False, False, False, False, True, False, False],
          [True, False, False, False, False, False, True, False],
          [False, True, True, True, True, False, True, True],
          [False, True, True, True, False, True, True, True],
          [True, True, True, False, True, False, False, False]]
   \<and> splitlines mixed_rules =
        [''*.tmp'', ''?.log'', ''[abc].txt'', ''[!0-9]x'', [], ''data[0-9a-f]'', ''[]!]'', ''['', ''a[b'', ''lit'']
   \<and> map (ignore (self\<lparr>ignore_rules := mixed_rules\<rparr>))
        [''x.tmp'', ''x.tmpl'', ''a.log'', ''ab.log'', ''b.txt'', ''d.txt'', ''B.txt'', ''ax'', ''5x'',
         ''data7'', ''datag'', ''dataA'', '']'', ''!'', ''a'', ''['', ''a[b'', ''lit'', ''LIT'',
         ''?.log'', ''.x'', ''abcx'']
      = [True, False, True, False, True, False, False, True, False,
         True, False, False, True, True, False, True, True, True, False,
         True, True, False]
   \<and> ignore (self\<lparr>ignore_rules := ''*.txt''\<rparr>) ''notes.txt''
   \<and> \<not> ignore (self\<lparr>ignore_rules := ''*.txt''\<rparr>) ''notes.TXT''"
proof -
  have dot: "ignore self (CHR ''.'' # rest)"
    by (simp add: ignore_def startswith_dot_def)
  have lines: "splitlines (join_lines ls) = ls
        \<and> (ignore (self\<lparr>ignore_rules := join_lines ls\<rparr>) filename \<longleftrightarrow>
             startswith_dot filename \<or> (\<exists>rule \<in> set ls. glob rule filename))"
    if "(\<forall>l \<in> set ls. \<forall>c \<in> set l. \<not> is_linebreak c) \<and> (ls \<noteq> [] \<longrightarrow> last ls \<noteq> [])"
  proof -
    from that have "splitlines (join_lines ls) = ls" by (intro splitlines_join_lines) simp_all
    then show ?thesis by (simp add: ignore_iff fnmatchcase_glob)
  qed
  have plain: "fnmatchcase filename (''['' @ seq @ '']'') \<longleftrightarrow> (\<exists>c \<in> set seq. filename = [c])"
    if "seq \<noteq> [] \<and> hd seq \<noteq> CHR ''!'' \<and> CHR ''-'' \<notin> set seq \<and> CHR '']'' \<notin> set seq"
    using that fnmatchcase_plain_set [of seq filename] by simp
  have negated: "fnmatchcase filename (''[!'' @ seq @ '']'') \<longleftrightarrow> (\<exists>c. c \<notin> set seq \<and> filename = [c])"
    if "seq \<noteq> [] \<and> CHR ''-'' \<notin> set seq \<and> CHR '']'' \<notin> set seq"
    using that fnmatchcase_negated_set [of seq filename] by simp
  have range: "fnmatchcase filename [CHR ''['', lo, CHR ''-'', hi, CHR '']''] \<longleftrightarrow>
           (\<exists>c. lo \<le> c \<and> c \<le> hi \<and> filename = [c])"
    if "lo \<noteq> CHR ''!'' \<and> hi \<noteq> CHR '']''"
    using that fnmatchcase_range [of lo hi filename] by simp
  have elems: "fnmatchcase filename (''['' @ set_text es @ '']'') \<longleftrightarrow>
           (\<exists>c. filename = [c] \<and> (\<exists>e \<in> set es. elem_has e c))"
    if "list_all elem_ok es \<and> es \<noteq> [] \<and> hd (set_text es) \<noteq> CHR ''!''"
    using that fnmatchcase_elems [of es filename] by simp
  have not_elems: "fnmatchcase filename (''[!'' @ set_text es @ '']'') \<longleftrightarrow>
           (\<exists>c. filename = [c] \<and> \<not> (\<exists>e \<in> set es. elem_has e c))"
    if "list_all elem_ok es \<and> es \<noteq> []"
    using that fnmatchcase_not_elems [of es filename] by simp
  have mixed: "map (ignore (self\<lparr>ignore_rules := mixed_rules\<rparr>))
        [''x.tmp'', ''x.tmpl'', ''a.log'', ''ab.log'', ''b.txt'', ''d.txt'', ''B.txt'', ''ax'', ''5x'',
         ''data7'', ''datag'', ''dataA'', '']'', ''!'', ''a'', ''['', ''a[b'', ''lit'', ''LIT'',
         ''?.log'', ''.x'', ''abcx'']
      = [True, False, True, False, True, False, False, True, False,
         True, False, False, True, True, False, True, True, True, False,
         True, True, False]"
  proof -
    have "ignore (self\<lparr>ignore_rules := mixed_rules\<rparr>)
            = (\<lambda>n. startswith_dot n \<or> list_ex (fnmatchcase n) (splitlines mixed_rules))"
      by (rule ext) (simp add: ignore_def)
    then show ?thesis by (simp only: mixed_decisions)
  qed
  have rules: "splitlines ''*.txt'' = [''*.txt'']"
    by (simp add: splitlines_def is_linebreak_def)
  have pat: "translate ''*.txt'' = [Star, Lit CHR ''.'', Lit CHR ''t'', Lit CHR ''x'', Lit CHR ''t'']"
    by simp
  have lower: "ignore (self\<lparr>ignore_rules := ''*.txt''\<rparr>) ''notes.txt''"
    by (simp add: ignore_def rules fnmatchcase_def pat del: translate.simps)
  have upper: "\<not> ignore (self\<lparr>ignore_rules := ''*.txt''\<rparr>) ''notes.TXT''"
    by (simp add: ignore_def rules startswith_dot_def fnmatchcase_def pat del: translate.simps)
  show ?thesis
    by (intro conjI impI ignore_iff dot fnmatchcase_glob lines plain negated range elems not_elems
          empty_range_instances bracket_table mixed_lines mixed lower upper) simp_all
qed

theorem ignore_decision_witness:
  "ignore example_source ''.cache''
   \<and> ignore example_source ''b.tmp''
   \<and> \<not> ignore example_source ''a.txt''
   \<and> glob ''*.tmp'' ''b.tmp''
   \<and> \<not> glob ''.cache'' ''b.tmp''
   \<and> splitlines (join_lines [''.cache'', ''*.tmp'']) = [''.cache'', ''*.tmp'']
   \<and> ignore (example_source\<lparr>ignore_rules := join_lines [''?.log'', ''[abc].txt'']\<rparr>) ''b.txt''
   \<and> fnmatchcase ''b'' ''[abc]''
   \<and> \<not> fnmatchcase ''b'' ''[!abc]''
   \<and> fnmatchcase ''7'' ''[0-9]''
   \<and> \<not> fnmatchcase ''a'' ''[0-9]''
   \<and> fnmatchcase ''c'' ''[0-9a-f_]''
   \<and> \<not> fnmatchcase ''g'' ''[0-9a-f_]''
   \<and> fnmatchcase ''g'' ''[!0-9a-f_]''
   \<and> \<not> fnmatchcase ''_'' ''[!0-9a-f_]''"
proof -
  have e: "example_source\<lparr>ignore_rules := join_lines [''.cache'', ''*.tmp'']\<rparr> = example_source"
    by (simp add: example_source_def scenario_rules_def)
  have m: "fnmatchcase ''b.tmp'' ''*.tmp''" "\<not> fnmatchcase ''b.tmp'' ''.cache''"
    "\<not> fnmatchcase ''a.txt'' ''*.tmp''" "\<not> fnmatchcase ''a.txt'' ''.cache''"
    "fnmatchcase ''b.txt'' ''[abc].txt''" "\<not> fnmatchcase ''b.txt'' ''?.log''"
    by code_simp+
  have lb: "(\<forall>l \<in> set [''.cache'', ''*.tmp'']. \<forall>c \<in> set l. \<not> is_linebreak c)
            \<and> ([''.cache'', ''*.tmp''] \<noteq> [] \<longrightarrow> last [''.cache'', ''*.tmp''] \<noteq> [])"
    "(\<forall>l \<in> set [''?.log'', ''[abc].txt'']. \<forall>c \<in> set l. \<not> is_linebreak c)
            \<and> ([''?.log'', ''[abc].txt''] \<noteq> [] \<longrightarrow> last [''?.log'', ''[abc].txt''] \<noteq> [])"
    by (simp_all add: is_linebreak_def)
  have sq: "''abc'' \<noteq> [] \<and> hd ''abc'' \<noteq> CHR ''!'' \<and> CHR ''-'' \<notin> set ''abc'' \<and> CHR '']'' \<notin> set ''abc''"
    "''abc'' \<noteq> [] \<and> CHR ''-'' \<notin> set ''abc'' \<and> CHR '']'' \<notin> set ''abc''"
    "CHR ''0'' \<noteq> CHR ''!'' \<and> CHR ''9'' \<noteq> CHR '']''"
    by simp_all
  note I = ignore_decision [where self = example_source and rest = "''cache''"
      and ls = "[''.cache'', ''*.tmp'']" and seq = "''abc''" and lo = "CHR ''0''" and hi = "CHR ''9''"
      and es = "[Range CHR ''0'' CHR ''9'', Range CHR ''a'' CHR ''f'', One CHR ''_'']"]
  note J = ignore_decision [where self = example_source and rest = "''cache''"
      and ls = "[''?.log'', ''[abc].txt'']" and seq = "''abc''" and lo = "CHR ''0''" and hi = "CHR ''9''"
      and es = "[Range CHR ''0'' CHR ''9'', Range CHR ''a'' CHR ''f'', One CHR ''_'']"]
  have dot: "ignore example_source ''.cache''"
    using I [where filename = "[]" and rule = "[]"] by - (elim conjE, assumption)
  have g: "fnmatchcase n r \<longleftrightarrow> glob r n" for n r
    using I [where filename = n and rule = r] by - (elim conjE, assumption)
  have lines: "splitlines (join_lines [''.cache'', ''*.tmp'']) = [''.cache'', ''*.tmp'']
        \<and> (ignore (example_source\<lparr>ignore_rules := join_lines [''.cache'', ''*.tmp'']\<rparr>) n \<longleftrightarrow>
             startswith_dot n \<or> (\<exists>rule \<in> set [''.cache'', ''*.tmp'']. glob rule n))" for n
    using I [where filename = n and rule = "[]"]
    by - (elim conjE, erule mp, rule lb(1))
  have lines': "splitlines (join_lines [''?.log'', ''[abc].txt'']) = [''?.log'', ''[abc].txt'']
        \<and> (ignore (example_source\<lparr>ignore_rules := join_lines [''?.log'', ''[abc].txt'']\<rparr>) n \<longleftrightarrow>
             startswith_dot n \<or> (\<exists>rule \<in> set [''?.log'', ''[abc].txt'']. glob rule n))" for n
    using J [where filename = n and rule = "[]"]
    by - (elim conjE, erule mp, rule lb(2))
  have plain: "fnmatchcase n (''['' @ ''abc'' @ '']'') \<longleftrightarrow> (\<exists>c \<in> set ''abc''. n = [c])" for n
    using I [where filename = n and rule = "[]"]
    by - (elim conjE, erule mp, rule sq(1))
  have negated: "fnmatchcase n (''[!'' @ ''abc'' @ '']'') \<longleftrightarrow> (\<exists>c. c \<notin> set ''abc'' \<and> n = [c])" for n
    using I [where filename = n and rule = "[]"]
    by - (elim conjE, erule mp, rule sq(2))
  have range: "fnmatchcase n [CHR ''['', CHR ''0'', CHR ''-'', CHR ''9'', CHR '']''] \<longleftrightarrow>
           (\<exists>c. CHR ''0'' \<le> c \<and> c \<le> CHR ''9'' \<and> n = [c])" for n
    using I [where filename = n and rule = "[]"]
    by - (elim conjE, erule mp, rule sq(3))
  let ?es = "[Range CHR ''0'' CHR ''9'', Range CHR ''a'' CHR ''f'', One CHR ''_'']"
  have ok: "list_all elem_ok ?es \<and> ?es \<noteq> [] \<and> hd (set_text ?es) \<noteq> CHR ''!''"
    "list_all elem_ok ?es \<and> ?es \<noteq> []"
    by (simp_all add: less_eq_char_def)
  have elems: "fnmatchcase n (''['' @ set_text ?es @ '']'') \<longleftrightarrow>
           (\<exists>c. n = [c] \<and> (\<exists>e \<in> set ?es. elem_has e c))" for n
    using I [where filename = n and rule = "[]"]
    by - (elim conjE, erule mp, rule ok(1))
  have not_elems: "fnmatchcase n (''[!'' @ set_text ?es @ '']'') \<longleftrightarrow>
           (\<exists>c. n = [c] \<and> \<not> (\<exists>e \<in> set ?es. elem_has e c))" for n
    using I [where filename = n and rule = "[]"]
    by - (elim conjE, erule mp, rule ok(2))
  from elems [of "''c''"] have s1: "fnmatchcase ''c'' ''[0-9a-f_]''"
    by (simp add: less_eq_char_def)
  from elems [of "''g''"] have s2: "\<not> fnmatchcase ''g'' ''[0-9a-f_]''"
    by (simp add: less_eq_char_def)
  from not_elems [of "''g''"] have s3: "fnmatchcase ''g'' ''[!0-9a-f_]''"
    by (simp add: less_eq_char_def)
  from not_elems [of "''_''"] have s4: "\<not> fnmatchcase ''_'' ''[!0-9a-f_]''"
    by (simp add: less_eq_char_def)
  from m(1,2) have g1: "glob ''*.tmp'' ''b.tmp''" and g2: "\<not> glob ''.cache'' ''b.tmp''"
    unfolding g by simp_all
  from m(3,4) have g3: "\<not> glob ''*.tmp'' ''a.txt''" and g4: "\<not> glob ''.cache'' ''a.txt''"
    unfolding g by simp_all
  from m(5) have g5: "glob ''[abc].txt'' ''b.txt''" unfolding g .
  from lines [of "''b.tmp''"] g1 have c2: "ignore example_source ''b.tmp''"
    unfolding e by simp
  from lines [of "''a.txt''"] g3 g4 have c3: "\<not> ignore example_source ''a.txt''"
    unfolding e by (simp add: startswith_dot_def)
  from lines [of "''a.txt''"] have sl: "splitlines (join_lines [''.cache'', ''*.tmp'']) = [''.cache'', ''*.tmp'']"
    by (rule conjunct1)
  from lines' [of "''b.txt''"] g5
  have c4: "ignore (example_source\<lparr>ignore_rules := join_lines [''?.log'', ''[abc].txt'']\<rparr>) ''b.txt''"
    by simp
  from plain [of "''b''"] have c5: "fnmatchcase ''b'' ''[abc]''" by simp
  from negated [of "''b''"] have c6: "\<not> fnmatchcase ''b'' ''[!abc]''" by simp
  from range [of "''7''"] have c7: "fnmatchcase ''7'' ''[0-9]''" by (simp add: less_eq_char_def)
  from range [of "''a''"] have c8: "\<not> fnmatchcase ''a'' ''[0-9]''" by (simp add: less_eq_char_def)
  from dot c2 c3 g1 g2 sl c4 c5 c6 c7 c8 s1 s2 s3 s4 show ?thesis by (intro conjI)
qed

section \<open>The tree walk on the scenario\<close>

lemma scenario_lines: "splitlines scenario_rules = [''.cache'', ''*.tmp'']"
  by (simp add: scenario_rules_def splitlines_def is_linebreak_def)

lemma translate_cache:
  "translate ''.cache'' = [Lit CHR ''.'', Lit CHR ''c'', Lit CHR ''a'', Lit CHR ''c'', Lit CHR ''h'', Lit CHR ''e'']"
  by simp

lemma translate_tmp:
  "translate ''*.tmp'' = [Star, Lit CHR ''.'', Lit CHR ''t'', Lit CHR ''m'', Lit CHR ''p'']"
  by simp

lemma scenario_ignore:
  assumes "ignore_rules self = scenario_rules"
  shows "\<not> ignore self ''a.txt''" "ignore self ''b.tmp''" "ignore self ''.cache''"
    "\<not> ignore self ''c.txt''"
  using assms
  by (simp_all add: ignore_def scenario_lines startswith_dot_def fnmatchcase_def
        translate_cache translate_tmp del: translate.simps)

lemma scenario_walk:
  assumes "ignore_rules self = scenario_rules"
  shows "walk self (scenario_fs a b c d) ''/data'' = Inr [''sub/.hidden/c.txt'', ''a.txt'']"
  using scenario_ignore [OF assms]
  by (simp add: walk_def os_walk_def resolve_def scenario_fs_def strip_root_def py_split_def
        lstrip_slash_def startswith_dot_def path_join_def)

lemma scenario_walk_top:
  assumes "ignore_rules self = scenario_rules"
  shows "walk self (scenario_fs_top a b c d) ''/data'' = Inr [''a.txt'']"
  using scenario_ignore [OF assms]
  by (simp add: walk_def os_walk_def resolve_def scenario_fs_top_def strip_root_def py_split_def
        lstrip_slash_def startswith_dot_def path_join_def)

text \<open>
  Claim C1, as stated, fails: on the scenario the walk returns \<open>sub/.hidden/c.txt\<close> as
  well as \<open>a.txt\<close>, so the path set is not \<open>{a.txt}\<close>.
\<close>

theorem walk_scenario_counterexample:
  "walk example_source (scenario_fs [1] [2] [3] [4]) ''/data'' = Inr [''sub/.hidden/c.txt'', ''a.txt'']
   \<and> set [''sub/.hidden/c.txt'', ''a.txt''] \<noteq> {''a.txt''}"
proof -
  have "ignore_rules example_source = scenario_rules" by (simp add: example_source_def)
  then show ?thesis by (simp add: scenario_walk)
qed

text \<open>
  Claim C1, amended.  On the scenario the walk returns exactly \<open>a.txt\<close> and
  \<open>sub/.hidden/c.txt\<close>: \<open>b.tmp\<close> is excluded by the pattern, \<open>.cache\<close> by the leading
  dot, and \<open>sub/.hidden\<close> is visited, because a directory is skipped only when its path
  relative to the root starts with a dot.  With \<open>.hidden\<close> directly under the root the
  walk returns \<open>a.txt\<close> alone.
\<close>

theorem walk_scenario_paths:
  "map_sum id set (walk (self\<lparr>ignore_rules := scenario_rules\<rparr>) (scenario_fs a b c d) ''/data'')
     = Inr {''a.txt'', ''sub/.hidden/c.txt''}
   \<and> ignore (self\<lparr>ignore_rules := scenario_rules\<rparr>) ''b.tmp''
   \<and> ignore (self\<lparr>ignore_rules := scenario_rules\<rparr>) ''.cache''
   \<and> map_sum id set (walk (self\<lparr>ignore_rules := scenario_rules\<rparr>) (scenario_fs_top a b c d) ''/data'')
     = Inr {''a.txt''}"
proof -
  have r: "ignore_rules (self\<lparr>ignore_rules := scenario_rules\<rparr>) = scenario_rules" by simp
  show ?thesis
    unfolding scenario_walk [OF r] scenario_walk_top [OF r]
    using scenario_ignore [OF r] by auto
qed

section \<open>Refreshing one record\<close>


lemma example_read_a: "read_file example_fs ''/data/a.txt'' = Inr [104, 105]"
  by (simp add: read_file_def resolve_def example_fs_def scenario_fs_def)

lemma example_read_c: "read_file example_fs ''/data/sub/.hidden/c.txt'' = Inr [4]"
  by (simp add: read_file_def resolve_def example_fs_def scenario_fs_def)

lemma example_read_gone: "read_file example_fs ''/data/gone.txt'' = Inl FileNotFoundError"
  by (simp add: read_file_def resolve_def example_fs_def scenario_fs_def)

lemma example_join [simp]:
  "path_join ''/data'' ''a.txt'' = ''/data/a.txt''"
  "path_join ''/data'' ''gone.txt'' = ''/data/gone.txt''"
  "path_join ''/data'' ''sub/.hidden/c.txt'' = ''/data/sub/.hidden/c.txt''"
  by (simp_all add: path_join_def)


section \<open>The steps of a run\<close>

lemma ignore_status [simp]: "ignore (self\<lparr>status := s\<rparr>) = ignore self"
  by (rule ext) (simp add: ignore_def)

lemma walk_loop_cong_ignore:
  "ignore self = ignore self' \<Longrightarrow> walk_loop self root ts ps = walk_loop self' root ts ps"
  by (induction self root ts ps rule: walk_loop.induct) (simp_all split: sum.splits)

lemma walk_status [simp]: "walk (self\<lparr>status := s\<rparr>) fs root = walk self fs root"
  unfolding walk_def by (rule walk_loop_cong_ignore) simp

lemma get_backend_status [simp]: "get_backend e (self\<lparr>status := s\<rparr>) = get_backend e self"
  by (simp add: get_backend_def split: option.splits)

lemma create_loop_cong_pk:
  "pk self = pk self' \<Longrightarrow>
   create_loop e fs lp self srcs table k ps = create_loop e fs lp self' srcs table k ps"
  by (induction ps arbitrary: k) (simp_all split: sum.splits)

lemma datafiles_all_cong:
  "pk self = pk self' \<Longrightarrow> datafiles w = datafiles w' \<Longrightarrow> datafiles_all self w = datafiles_all self' w'"
  by (simp add: datafiles_all_def)

lemma sync_files_status [simp]:
  "sync_files e (self\<lparr>status := s\<rparr>) fs lp w = sync_files e self fs lp w"
proof -
  have c: "create_loop e fs lp (self\<lparr>status := s\<rparr>) srcs table k ps = create_loop e fs lp self srcs table k ps"
    for srcs table k ps
    by (rule create_loop_cong_pk) simp
  have d: "datafiles_all (self\<lparr>status := s\<rparr>) w = datafiles_all self w"
    by (rule datafiles_all_cong) simp_all
  show ?thesis
    unfolding sync_files_def c d walk_status ..
qed

text \<open>Errors of the sub-steps.\<close>

lemma refresh_loop_error:
  "refresh_loop e fs lp k dfs = Inl err \<Longrightarrow> \<exists>oe. err = OSError oe"
  by (induction dfs arbitrary: k)
     (auto split: sum.splits oserror.splits prod.splits if_splits)

lemma strip_root_error:
  "strip_root p root = Inl err \<Longrightarrow> err = ValueError \<or> err = IndexError"
  by (auto simp: strip_root_def split: option.splits list.splits)

lemma walk_loop_error:
  "walk_loop self root ts ps = Inl err \<Longrightarrow> err = ValueError \<or> err = IndexError"
  by (induction self root ts ps rule: walk_loop.induct)
     (auto split: sum.splits if_splits dest: strip_root_error)

lemma full_clean_error: "full_clean srcs table df = Inl err \<Longrightarrow> err = ValidationError"
  by (auto simp: full_clean_def split: if_splits)

lemma create_loop_error:
  "create_loop e fs lp self srcs table k ps = Inl err \<Longrightarrow> (\<exists>oe. err = OSError oe) \<or> err = ValidationError"
  by (induction ps arbitrary: k)
     (auto split: sum.splits prod.splits if_splits dest: full_clean_error)

lemma sync_files_error:
  assumes "sync_files e self fs lp w = (Inl err, w')"
  shows "err \<noteq> SyncError"
  using assms
  by (auto simp: sync_files_def walk_def Let_def
           split: sum.splits prod.splits
           dest: refresh_loop_error walk_loop_error create_loop_error)

lemma sync_files_frame:
  assumes "sync_files e self fs lp w = (r, w')"
  shows "datasources w' = datasources w \<and> signals w' = signals w"
  using assms
  by (auto simp: sync_files_def Let_def bulk_create_def split: sum.splits prod.splits)

lemma sync_not_ready: "\<not> ready_for_sync self \<Longrightarrow> sync e self w = (Inl SyncError, self, w)"
  by (simp add: sync_def)

text \<open>The steps of a run that passed the readiness check.\<close>

lemma started_simps [simp]:
  "datafiles (started self w) = datafiles w"
  "next_pk (started self w) = next_pk w"
  "signals (started self w) = signals w @ [(PreSync, pk self)]"
  "datasources (started self w) =
     map (\<lambda>r. if pk r = pk self then r\<lparr>status := Syncing\<rparr> else r) (datasources w)"
  by (simp_all add: started_def update_datasource_def)

lemma map_pk_status [simp]:
  "map (pk \<circ> (\<lambda>r. if pk r = k then r\<lparr>status := s\<rparr> else r)) rows = map pk rows"
  by (induction rows) simp_all

lemma started_pks [simp]: "map pk (datasources (started self w)) = map pk (datasources w)"
  by (simp add: started_def update_datasource_def)

lemma started_eq:
  "update_datasource (pk (self\<lparr>status := Syncing\<rparr>))
     (\<lambda>r. r\<lparr>status := status (self\<lparr>status := Syncing\<rparr>)\<rparr>)
     (w\<lparr>signals := signals w @ [(PreSync, pk self)]\<rparr>) = started self w"
  by (simp add: started_def)

lemma sync_backend_error:
  assumes "ready_for_sync self" and "get_backend e self = Inl err"
  shows "sync e self w = (Inl err, self\<lparr>status := Syncing\<rparr>, started self w)"
  using assms unfolding sync_def Let_def started_eq get_backend_status by simp

lemma sync_fetch_error:
  assumes "ready_for_sync self" and "get_backend e self = Inr (Inl err)"
  shows "sync e self w = (Inl err, self\<lparr>status := Syncing\<rparr>, started self w)"
  using assms unfolding sync_def Let_def started_eq get_backend_status by simp

lemma sync_files_error_result:
  assumes "ready_for_sync self" and "get_backend e self = Inr (Inr (lp, fs))"
    and "sync_files e self fs lp (started self w) = (Inl err, w3)"
  shows "sync e self w = (Inl err, self\<lparr>status := Syncing\<rparr>, w3)"
  using assms unfolding sync_def Let_def started_eq get_backend_status sync_files_status by simp

lemma sync_files_ok_result:
  assumes "ready_for_sync self" and "get_backend e self = Inr (Inr (lp, fs))"
    and "sync_files e self fs lp (started self w) = (Inr rep, w3)"
  shows "sync e self w =
           (Inr rep, self\<lparr>status := Completed, last_synced := Some (clock e (readings rep))\<rparr>,
            finished self (clock e (readings rep)) w3)"
  using assms unfolding sync_def Let_def started_eq get_backend_status sync_files_status
  by (simp add: finished_def update_datasource_def)

lemma sync_ready_error:
  assumes "ready_for_sync self" and "sync e self w = (Inl err, self', w')"
  shows "(err = SyncError \<longrightarrow> get_backend e self = Inr (Inl SyncError))
         \<and> self' = self\<lparr>status := Syncing\<rparr>
         \<and> datasources w' = datasources (started self w)
         \<and> signals w' = signals (started self w)"
proof (cases "get_backend e self")
  case (Inl x)
  from sync_backend_error [OF assms(1) Inl, of w] assms(2) Inl show ?thesis
    by (auto simp: get_backend_def split: option.splits)
next
  case (Inr b)
  show ?thesis
  proof (cases b)
    case (Inl fe)
    with Inr have gb: "get_backend e self = Inr (Inl fe)" by simp
    from sync_fetch_error [OF assms(1) gb, of w] assms(2) gb show ?thesis by auto
  next
    case (Inr lf)
    obtain lp fs where lf: "lf = (lp, fs)" by (cases lf)
    with Inr \<open>get_backend e self = Inr b\<close> have gb: "get_backend e self = Inr (Inr (lp, fs))" by simp
    obtain r w3 where sf: "sync_files e self fs lp (started self w) = (r, w3)"
      by (cases "sync_files e self fs lp (started self w)")
    show ?thesis
    proof (cases r)
      case (Inl err')
      with sf have sf': "sync_files e self fs lp (started self w) = (Inl err', w3)" by simp
      from sync_files_error_result [OF assms(1) gb sf'] assms(2)
      have "err = err'" and s: "self' = self\<lparr>status := Syncing\<rparr>" and w: "w' = w3" by auto
      moreover from sf' have "err' \<noteq> SyncError" by (rule sync_files_error)
      moreover from sf have "datasources w3 = datasources (started self w) \<and> signals w3 = signals (started self w)"
        by (rule sync_files_frame)
      ultimately show ?thesis by simp
    next
      case (Inr rep)
      with sf have "sync_files e self fs lp (started self w) = (Inr rep, w3)" by simp
      from sync_files_ok_result [OF assms(1) gb this] assms(2) show ?thesis by simp
    qed
  qed
qed

lemma refreshed_simps [simp]:
  "df_pk (refreshed H t b df) = df_pk df"
  "source (refreshed H t b df) = source df"
  "path (refreshed H t b df) = path df"
  "created (refreshed H t b df) = created df"
  "data (refreshed H t b df) = Some b"
  "hash (refreshed H t b df) = hexdigest (H b)"
  "size' (refreshed H t b df) = Some (length b)"
  "last_updated (refreshed H t b df) = Some t"
  by (simp_all add: refreshed_def)

lemma refresh_from_disk_eq:
  "refresh_from_disk H fs t df lp =
     (case read_file fs (path_join lp (path df)) of
        Inl err \<Rightarrow> Inl err
      | Inr b \<Rightarrow> if hexdigest (H b) = hash df then Inr (df, False)
                 else Inr (refreshed H t b df, True))"
  by (simp add: refresh_from_disk_def sha256_hash_def getsize_def Let_def refreshed_def
           split: sum.splits)

lemma refresh_from_disk_Inr:
  assumes "refresh_from_disk H fs t df lp = Inr (df', m)"
  obtains b where "read_file fs (path_join lp (path df)) = Inr b"
    and "m \<Longrightarrow> hexdigest (H b) \<noteq> hash df \<and> df' = refreshed H t b df"
    and "\<not> m \<Longrightarrow> hexdigest (H b) = hash df \<and> df' = df"
  using assms unfolding refresh_from_disk_eq
  by (auto split: sum.splits if_splits)

lemma refresh_from_disk_Inl:
  "refresh_from_disk H fs t df lp = Inl err \<longleftrightarrow> read_file fs (path_join lp (path df)) = Inl err"
  unfolding refresh_from_disk_eq by (auto split: sum.splits)

text \<open>What the loop over the known files stages.\<close>

lemma refresh_loop_updated:
  assumes "refresh_loop e fs lp k dfs = Inr (u, d, k')" and "x \<in> set u"
  shows "\<exists>df \<in> set dfs. \<exists>t b. read_file fs (path_join lp (path df)) = Inr b
            \<and> hexdigest (sha256 e b) \<noteq> hash df \<and> x = refreshed (sha256 e) t b df"
  using assms
proof (induction dfs arbitrary: k u d)
  case Nil
  then show ?case by simp
next
  case (Cons df dfs)
  show ?case
  proof (cases "refresh_from_disk (sha256 e) fs (clock e k) df lp")
    case (Inl oe)
    with Cons.prems(1) obtain d0 where "refresh_loop e fs lp k dfs = Inr (u, d0, k')"
      by (auto split: oserror.splits sum.splits)
    from Cons.IH [OF this Cons.prems(2)] show ?thesis by auto
  next
    case (Inr r)
    obtain df' m where r: "r = (df', m)" by (cases r)
    with Inr Cons.prems(1) obtain u0 where
      rest: "refresh_loop e fs lp (if m then Suc k else k) dfs = Inr (u0, d, k')"
      and u: "u = (if m then df' # u0 else u0)"
      by (auto split: sum.splits)
    show ?thesis
    proof (cases "x \<in> set u0")
      case True
      from Cons.IH [OF rest True] show ?thesis by auto
    next
      case False
      with u Cons.prems(2) have m: m and x: "x = df'" by (auto split: if_splits)
      from Inr r obtain b where "read_file fs (path_join lp (path df)) = Inr b"
        and "m \<Longrightarrow> hexdigest (sha256 e b) \<noteq> hash df \<and> df' = refreshed (sha256 e) (clock e k) b df"
        by (auto elim: refresh_from_disk_Inr)
      with m x show ?thesis by auto
    qed
  qed
qed

lemma refresh_loop_deleted:
  assumes "refresh_loop e fs lp k dfs = Inr (u, d, k')" and "p \<in> set d"
  shows "\<exists>df \<in> set dfs. p = df_pk df \<and> read_file fs (path_join lp (path df)) = Inl FileNotFoundError"
  using assms
proof (induction dfs arbitrary: k u d)
  case Nil
  then show ?case by simp
next
  case (Cons df dfs)
  show ?case
  proof (cases "refresh_from_disk (sha256 e) fs (clock e k) df lp")
    case (Inl oe)
    with Cons.prems(1) obtain d0 where rest: "refresh_loop e fs lp k dfs = Inr (u, d0, k')"
      and d: "d = df_pk df # d0" and oe: "oe = FileNotFoundError"
      by (auto split: oserror.splits sum.splits)
    show ?thesis
    proof (cases "p \<in> set d0")
      case True
      from Cons.IH [OF rest True] show ?thesis by auto
    next
      case False
      with d Cons.prems(2) have "p = df_pk df" by simp
      moreover from Inl oe have "read_file fs (path_join lp (path df)) = Inl FileNotFoundError"
        by (simp add: refresh_from_disk_Inl)
      ultimately show ?thesis by auto
    qed
  next
    case (Inr r)
    obtain df' m where r: "r = (df', m)" by (cases r)
    with Inr Cons.prems(1) obtain u0 where
      rest: "refresh_loop e fs lp (if m then Suc k else k) dfs = Inr (u0, d, k')"
      by (auto split: sum.splits)
    from Cons.IH [OF rest Cons.prems(2)] show ?thesis by auto
  qed
qed

text \<open>What the loop over the new paths stages.\<close>

lemma create_loop_staged:
  assumes "create_loop e fs lp self srcs table k ps = Inr (staged, k')"
  shows "map path staged = ps
    \<and> (\<forall>df \<in> set staged.
          (\<exists>t b. read_file fs (path_join lp (path df)) = Inr b
                 \<and> df = refreshed (sha256 e) t b (new_DataFile (pk self) (path df)))
          \<and> full_clean srcs table df = Inr ())"
  using assms
proof (induction ps arbitrary: k staged)
  case Nil
  then show ?case by simp
next
  case (Cons p ps)
  from Cons.prems obtain df m rest where
    r: "refresh_from_disk (sha256 e) fs (clock e k) (new_DataFile (pk self) p) lp = Inr (df, m)"
    and fc: "full_clean srcs table df = Inr ()"
    and rest: "create_loop e fs lp self srcs table (if m then Suc k else k) ps = Inr (rest, k')"
    and st: "staged = df # rest"
    by (auto split: sum.splits)
  from r obtain b where b: "read_file fs (path_join lp (path (new_DataFile (pk self) p))) = Inr b"
    and mt: "m \<Longrightarrow> df = refreshed (sha256 e) (clock e k) b (new_DataFile (pk self) p)"
    and mf: "\<not> m \<Longrightarrow> hexdigest (sha256 e b) = hash (new_DataFile (pk self) p)"
    by (auto elim: refresh_from_disk_Inr)
  have m: m
  proof (rule ccontr)
    assume "\<not> m"
    from mf [OF this] have "hexdigest (sha256 e b) = []" by (simp add: new_DataFile_def)
    with hexdigest_not_empty show False by blast
  qed
  have pp: "path (new_DataFile (pk self) p) = p" by (simp add: new_DataFile_def)
  from mt [OF m] have dfp: "path df = p" by (simp add: pp)
  from b pp dfp mt [OF m]
  have here: "\<exists>t b. read_file fs (path_join lp (path df)) = Inr b
                 \<and> df = refreshed (sha256 e) t b (new_DataFile (pk self) (path df))"
    by auto
  from Cons.IH [OF rest] st dfp fc here show ?case by simp
qed

lemma insert_fold_distinct:
  "distinct acc \<Longrightarrow>
   distinct (fold (\<lambda>x ps. if P x then List.insert (f x) ps else ps) xs acc)"
  by (induction xs arbitrary: acc) simp_all

lemma walk_loop_distinct:
  "walk_loop self root ts acc = Inr ps \<Longrightarrow> distinct acc \<Longrightarrow> distinct ps"
proof (induction self root ts acc rule: walk_loop.induct)
  case (1 self root paths)
  then show ?case by simp
next
  case (2 self root p dir_names file_names rest paths)
  from "2.prems"(1) obtain rel where rel: "strip_root p root = Inr rel"
    by (auto split: sum.splits)
  show ?case
  proof (cases "startswith_dot rel")
    case True
    with rel "2.prems" "2.IH"(1) show ?thesis by simp
  next
    case False
    let ?acc = "fold (\<lambda>file_name ps. if \<not> ignore self file_name
        then List.insert (path_join rel file_name) ps else ps) file_names paths"
    from "2.prems"(2) have "distinct ?acc" by (rule insert_fold_distinct)
    moreover from "2.prems"(1) rel False have "walk_loop self root rest ?acc = Inr ps" by simp
    ultimately show ?thesis using "2.IH"(2) [OF rel False] by blast
  qed
qed

lemma walk_distinct: "walk self fs root = Inr ps \<Longrightarrow> distinct ps"
  unfolding walk_def by (erule walk_loop_distinct) simp

section \<open>The readiness check\<close>

text \<open>
  Claim C5.  A source is ready for sync exactly when it is enabled and its status is
  neither queued nor syncing.  \<open>sync\<close> raises \<open>SyncError\<close> with the instance and the world
  (the rows of both tables and the signals sent) as before exactly when the source is not
  ready; in particular it does so for a disabled source whose status is completed.  And
  when the backend does not itself raise \<open>SyncError\<close>, no other step does: then \<open>sync\<close>
  raises \<open>SyncError\<close> exactly when the source is not ready.
\<close>

theorem sync_ready_gate:
  "(ready_for_sync self \<longleftrightarrow> enabled self \<and> status self \<noteq> Queued \<and> status self \<noteq> Syncing)
   \<and> (sync e self w = (Inl SyncError, self, w) \<longleftrightarrow> \<not> ready_for_sync self)
   \<and> (get_backend e self \<noteq> Inr (Inl SyncError) \<longrightarrow>
        (fst (sync e self w) = Inl SyncError \<longleftrightarrow> \<not> ready_for_sync self))
   \<and> sync e (self\<lparr>enabled := False, status := Completed\<rparr>) w
        = (Inl SyncError, self\<lparr>enabled := False, status := Completed\<rparr>, w)"
proof -
  have a: "ready_for_sync self \<longleftrightarrow> enabled self \<and> status self \<noteq> Queued \<and> status self \<noteq> Syncing"
    by (auto simp: ready_for_sync_def)
  have c: "sync e self w = (Inl SyncError, self, w)" if "\<not> ready_for_sync self"
    using that by (rule sync_not_ready)
  have b: "sync e self w \<noteq> (Inl SyncError, self, w)" if "ready_for_sync self"
  proof
    assume "sync e self w = (Inl SyncError, self, w)"
    from sync_ready_error [OF that this] have "self = self\<lparr>status := Syncing\<rparr>" by blast
    then have "status self = status (self\<lparr>status := Syncing\<rparr>)" by simp
    with that show False by (simp add: ready_for_sync_def)
  qed
  have g: "sync e self w = (Inl SyncError, self, w) \<longleftrightarrow> \<not> ready_for_sync self"
    using b c by blast
  have h: "fst (sync e self w) = Inl SyncError \<longleftrightarrow> \<not> ready_for_sync self"
    if nb: "get_backend e self \<noteq> Inr (Inl SyncError)"
  proof (cases "ready_for_sync self")
    case False
    with c show ?thesis by simp
  next
    case True
    have "fst (sync e self w) \<noteq> Inl SyncError"
    proof
      assume "fst (sync e self w) = Inl SyncError"
      then obtain self' w' where "sync e self w = (Inl SyncError, self', w')"
        by (cases "sync e self w") auto
      from sync_ready_error [OF True this] nb show False by blast
    qed
    with True show ?thesis by simp
  qed
  have d: "sync e (self\<lparr>enabled := False, status := Completed\<rparr>) w
        = (Inl SyncError, self\<lparr>enabled := False, status := Completed\<rparr>, w)"
    by (rule sync_not_ready) (simp add: ready_for_sync_def)
  from h have h': "get_backend e self \<noteq> Inr (Inl SyncError) \<longrightarrow>
        (fst (sync e self w) = Inl SyncError \<longleftrightarrow> \<not> ready_for_sync self)"
    by (rule impI)
  from a g h' d show ?thesis by (intro conjI)
qed

lemma git_source_ready: "ready_for_sync git_source"
  by (simp add: ready_for_sync_def git_source_def example_source_def)

lemma git_source_backend: "get_backend example_env git_source = Inr (Inl (FetchError NetworkFailure))"
  by (simp add: get_backend_def example_env_def git_source_def)

lemma git_source_sync:
  "sync example_env git_source example_world
     = (Inl (FetchError NetworkFailure), git_source\<lparr>status := Syncing\<rparr>, started git_source example_world)"
  using git_source_ready git_source_backend by (rule sync_fetch_error)

theorem sync_ready_gate_witness:
  "\<not> ready_for_sync (example_source\<lparr>enabled := False, status := Completed\<rparr>)
   \<and> sync example_env (example_source\<lparr>enabled := False, status := Completed\<rparr>) example_world
        = (Inl SyncError, example_source\<lparr>enabled := False, status := Completed\<rparr>, example_world)
   \<and> ready_for_sync git_source
   \<and> get_backend example_env git_source \<noteq> Inr (Inl SyncError)
   \<and> fst (sync example_env git_source example_world) \<noteq> Inl SyncError"
proof -
  have n: "\<not> ready_for_sync (example_source\<lparr>enabled := False, status := Completed\<rparr>)"
    by (simp add: ready_for_sync_def)
  note g = sync_ready_gate
    [where self = "example_source\<lparr>enabled := False, status := Completed\<rparr>"
       and e = example_env and w = example_world]
  from g n have s:
    "sync example_env (example_source\<lparr>enabled := False, status := Completed\<rparr>) example_world
        = (Inl SyncError, example_source\<lparr>enabled := False, status := Completed\<rparr>, example_world)"
    by blast
  have nb: "get_backend example_env git_source \<noteq> Inr (Inl SyncError)"
    by (simp add: git_source_backend)
  note g' = sync_ready_gate [where self = git_source and e = example_env and w = example_world]
  from g' nb git_source_ready
  have f: "fst (sync example_env git_source example_world) \<noteq> Inl SyncError"
    by blast
  from n s git_source_ready nb f show ?thesis by (intro conjI)
qed

section \<open>A run that succeeds\<close>

lemma set_datafiles_all [simp]:
  "set (datafiles_all self w) = {df \<in> set (datafiles w). source df = pk self}"
  by (auto simp: datafiles_all_def)

lemma sync_files_Inr:
  assumes "sync_files e self fs lp w = (Inr rep, w')"
  obtains k cur k' where
    "refresh_loop e fs lp 0 (datafiles_all self w) = Inr (updated_files rep, deleted_file_ids rep, k)"
    "walk self fs lp = Inr cur"
    "new_paths rep = filter (\<lambda>p. p \<notin> path ` set (datafiles_all self w)) cur"
    "create_loop e fs lp self (map pk (datasources w)) (reconciled rep (datafiles w)) k (new_paths rep) = Inr (new_datafiles rep, k')"
    "readings rep = k' + length (new_datafiles rep)"
    "w' = bulk_create (clock e) k' (new_datafiles rep) (w\<lparr>datafiles := reconciled rep (datafiles w)\<rparr>)"
proof -
  from assms obtain u d k where rl: "refresh_loop e fs lp 0 (datafiles_all self w) = Inr (u, d, k)"
    unfolding sync_files_def Let_def by (auto split: sum.splits prod.splits)
  from assms rl obtain cur where wk: "walk self fs lp = Inr cur"
    unfolding sync_files_def Let_def by (auto split: sum.splits prod.splits)
  let ?T = "delete_pks d (bulk_update u (datafiles w))"
  let ?new = "filter (\<lambda>p. p \<notin> set (remdups (map path (datafiles_all self w)))) cur"
  from assms rl wk obtain staged k' where
    cl: "create_loop e fs lp self (map pk (datasources w)) ?T k ?new = Inr (staged, k')"
    unfolding sync_files_def Let_def by (auto split: sum.splits prod.splits)
  from assms rl wk cl have rep: "rep = \<lparr>updated_files = u, deleted_file_ids = d, new_paths = ?new,
        new_datafiles = staged, readings = k' + length staged\<rparr>"
    and w': "w' = bulk_create (clock e) k' staged (w\<lparr>datafiles := ?T\<rparr>)"
    unfolding sync_files_def Let_def by simp_all
  show thesis
  proof (rule that [of k cur k'])
    show "refresh_loop e fs lp 0 (datafiles_all self w) = Inr (updated_files rep, deleted_file_ids rep, k)"
      using rl rep by simp
    show "walk self fs lp = Inr cur" by (rule wk)
    show "new_paths rep = filter (\<lambda>p. p \<notin> path ` set (datafiles_all self w)) cur"
      using rep by simp
    show "create_loop e fs lp self (map pk (datasources w)) (reconciled rep (datafiles w)) k (new_paths rep) = Inr (new_datafiles rep, k')"
      using cl rep by (simp add: reconciled_def)
    show "readings rep = k' + length (new_datafiles rep)" using rep by simp
    show "w' = bulk_create (clock e) k' (new_datafiles rep) (w\<lparr>datafiles := reconciled rep (datafiles w)\<rparr>)"
      using w' rep by (simp add: reconciled_def)
  qed
qed

lemma sync_Inr:
  assumes "sync e self w = (Inr rep, self', w')"
  obtains lp fs w3 where
    "ready_for_sync self"
    "get_backend e self = Inr (Inr (lp, fs))"
    "sync_files e self fs lp (started self w) = (Inr rep, w3)"
    "self' = self\<lparr>status := Completed, last_synced := Some (clock e (readings rep))\<rparr>"
    "w' = finished self (clock e (readings rep)) w3"
proof -
  have rdy: "ready_for_sync self"
  proof (rule ccontr)
    assume "\<not> ready_for_sync self"
    from sync_not_ready [OF this] assms show False by simp
  qed
  show thesis
  proof (cases "get_backend e self")
    case (Inl x)
    from sync_backend_error [OF rdy Inl] assms show ?thesis by simp
  next
    case (Inr b)
    show ?thesis
    proof (cases b)
      case (Inl fe)
      with Inr have "get_backend e self = Inr (Inl fe)" by simp
      from sync_fetch_error [OF rdy this] assms show ?thesis by simp
    next
      case (Inr lf)
      obtain lp fs where lf: "lf = (lp, fs)" by (cases lf)
      with Inr \<open>get_backend e self = Inr b\<close> have gb: "get_backend e self = Inr (Inr (lp, fs))" by simp
      obtain r w3 where sf: "sync_files e self fs lp (started self w) = (r, w3)"
        by (cases "sync_files e self fs lp (started self w)")
      show ?thesis
      proof (cases r)
        case (Inl err)
        with sf have "sync_files e self fs lp (started self w) = (Inl err, w3)" by simp
        from sync_files_error_result [OF rdy gb this] assms show ?thesis by simp
      next
        case (Inr rep')
        with sf have sf': "sync_files e self fs lp (started self w) = (Inr rep', w3)" by simp
        from sync_files_ok_result [OF rdy gb sf'] assms
        have "rep' = rep"
          and s: "self' = self\<lparr>status := Completed, last_synced := Some (clock e (readings rep))\<rparr>"
          and w: "w' = finished self (clock e (readings rep)) w3"
          by simp_all
        with sf' have "sync_files e self fs lp (started self w) = (Inr rep, w3)" by simp
        from that [OF rdy gb this s w] show ?thesis .
      qed
    qed
  qed
qed

lemma finished_simps [simp]:
  "datafiles (finished self t w) = datafiles w"
  "next_pk (finished self t w) = next_pk w"
  "signals (finished self t w) = signals w @ [(PostSync, pk self)]"
  "datasources (finished self t w) =
     map (\<lambda>r. if pk r = pk self then r\<lparr>status := Completed, last_synced := Some t\<rparr> else r)
       (datasources w)"
  by (simp_all add: finished_def update_datasource_def)

lemma stamp_new_map [simp]:
  "map path (stamp_new clk n k objs) = map path objs"
  "map source (stamp_new clk n k objs) = map source objs"
  "map data (stamp_new clk n k objs) = map data objs"
  "map hash (stamp_new clk n k objs) = map hash objs"
  "map size' (stamp_new clk n k objs) = map size' objs"
  by (induction objs arbitrary: n k) simp_all

lemma bulk_create_datafiles [simp]:
  "datafiles (bulk_create clk k objs w) = datafiles w @ stamp_new clk (next_pk w) k objs"
  by (simp add: bulk_create_def)

lemma sync_Inr_files:
  assumes "sync e self w = (Inr rep, self', w')"
  obtains lp fs k cur k' where
    "get_backend e self = Inr (Inr (lp, fs))"
    "refresh_loop e fs lp 0 (datafiles_all self w) = Inr (updated_files rep, deleted_file_ids rep, k)"
    "walk self fs lp = Inr cur"
    "new_paths rep = filter (\<lambda>p. p \<notin> path ` set (datafiles_all self w)) cur"
    "create_loop e fs lp self (map pk (datasources w)) (reconciled rep (datafiles w)) k (new_paths rep) = Inr (new_datafiles rep, k')"
    "datafiles w' = reconciled rep (datafiles w) @ stamp_new (clock e) (next_pk w) k' (new_datafiles rep)"
proof -
  from assms obtain lp fs w3 where
    gb: "get_backend e self = Inr (Inr (lp, fs))"
    and sf: "sync_files e self fs lp (started self w) = (Inr rep, w3)"
    and w': "w' = finished self (clock e (readings rep)) w3"
    by (rule sync_Inr)
  have da: "datafiles_all self (started self w) = datafiles_all self w"
    by (rule datafiles_all_cong) simp_all
  from sf obtain k cur k' where
    rl: "refresh_loop e fs lp 0 (datafiles_all self (started self w)) = Inr (updated_files rep, deleted_file_ids rep, k)"
    and wk: "walk self fs lp = Inr cur"
    and np: "new_paths rep = filter (\<lambda>p. p \<notin> path ` set (datafiles_all self (started self w))) cur"
    and cl: "create_loop e fs lp self (map pk (datasources (started self w))) (reconciled rep (datafiles (started self w))) k (new_paths rep) = Inr (new_datafiles rep, k')"
    and w3: "w3 = bulk_create (clock e) k' (new_datafiles rep)
                ((started self w)\<lparr>datafiles := reconciled rep (datafiles (started self w))\<rparr>)"
    by (rule sync_files_Inr)
  have "datafiles w' = reconciled rep (datafiles w) @ stamp_new (clock e) (next_pk w) k' (new_datafiles rep)"
    unfolding w' w3 by simp
  with gb rl wk np cl show thesis
    unfolding da by (intro that [of lp fs k cur k']) simp_all
qed

lemma new_DataFile_simps [simp]:
  "df_pk (new_DataFile s p) = None" "source (new_DataFile s p) = s" "path (new_DataFile s p) = p"
  "hash (new_DataFile s p) = []" "data (new_DataFile s p) = Some []" "size' (new_DataFile s p) = None"
  "created (new_DataFile s p) = None" "last_updated (new_DataFile s p) = None"
  by (simp_all add: new_DataFile_def)

lemma refresh_new_DataFile:
  assumes "read_file fs (path_join lp p) = Inr b"
  shows "refresh_from_disk H fs t (new_DataFile s p) lp = Inr (refreshed H t b (new_DataFile s p), True)"
  using assms hexdigest_not_empty [of "H b"] unfolding refresh_from_disk_eq by auto

section \<open>Concrete runs\<close>

lemma last_hexdigest: "last (hexdigest w) = hex_char (unat (take_bit 4 w))"
proof -
  have "last (hexdigest w)
      = (\<lambda>i. hex_char (unat (take_bit 4 (drop_bit (4 * (63 - i)) w)))) (last [0..<64])"
    unfolding hexdigest_def by (rule last_map) simp
  also have "last [0..<64] = (63::nat)" by (simp add: last_upt del: upt.simps)
  finally show ?thesis by simp
qed

lemma example_digests_differ:
  "hexdigest (example_digest [104, 105]) \<noteq> hexdigest (example_digest [])"
proof
  assume "hexdigest (example_digest [104, 105]) = hexdigest (example_digest [])"
  then have "last (hexdigest (example_digest [104, 105])) = last (hexdigest (example_digest []))"
    by simp
  then show False
    by (simp add: last_hexdigest example_digest_def hex_char_def)
qed

lemma row_fields [simp]:
  "path stale_row = ''a.txt''" "path gone_row = ''gone.txt''" "path foreign_row = ''a.txt''"
  "source stale_row = 1" "source gone_row = 1" "source foreign_row = 2"
  "df_pk stale_row = Some 1" "df_pk gone_row = Some 2" "df_pk foreign_row = Some 3"
  "hash stale_row = hexdigest (example_digest [])"
  by (simp_all add: stale_row_def gone_row_def foreign_row_def)

lemma example_source_fields [simp]:
  "pk example_source = 1" "ignore_rules example_source = scenario_rules"
  "type' example_source = ''local''" "source_url example_source = ''/data''"
  "parameters example_source = None" "enabled example_source" "status example_source = New"
  by (simp_all add: example_source_def)

lemma example_env_fields [simp]:
  "sha256 example_env = example_digest" "clock example_env k = 100 + k"
  by (simp_all add: example_env_def)

lemma busy_known: "datafiles_all example_source busy_world = [stale_row, gone_row]"
  by (simp add: datafiles_all_def busy_world_def)

lemma example_reads [simp]:
  "read_file example_fs ''/data/a.txt'' = Inr [104, 105]"
  "read_file example_fs ''/data/sub/.hidden/c.txt'' = Inr [4]"
  "read_file example_fs ''/data/gone.txt'' = Inl FileNotFoundError"
  by (rule example_read_a example_read_c example_read_gone)+

lemma example_backend: "get_backend example_env example_source = Inr (Inr (''/data'', example_fs))"
  by (simp add: get_backend_def example_env_def)

lemma example_ready: "ready_for_sync example_source"
  by (simp add: ready_for_sync_def)

lemma example_walk: "walk example_source example_fs ''/data'' = Inr [''sub/.hidden/c.txt'', ''a.txt'']"
  unfolding example_fs_def by (rule scenario_walk) simp

lemma busy_refresh_loop:
  "refresh_loop example_env example_fs ''/data'' 0 [stale_row, gone_row]
     = Inr ([refreshed example_digest 100 [104, 105] stale_row], [Some 2], Suc 0)"
  using example_digests_differ by (simp add: refresh_from_disk_eq)

lemma busy_reconciled:
  "delete_pks [Some 2]
     (bulk_update [refreshed example_digest 100 [104, 105] stale_row] [stale_row, gone_row, foreign_row])
   = [refreshed example_digest 100 [104, 105] stale_row, foreign_row]"
  by (simp add: delete_pks_def bulk_update_def refreshed_def stale_row_def gone_row_def foreign_row_def)

lemma full_clean_refreshed_new:
  assumes "length p \<le> 1000" and "length b \<le> 2147483647" and "s \<in> set srcs"
    and "\<forall>row \<in> set table. \<not> (source row = s \<and> path row = p)"
  shows "full_clean srcs table (refreshed H t b (new_DataFile s p)) = Inr ()"
  using assms is_hex64_hexdigest [of "H b"] by (auto simp: full_clean_def list_ex_iff)

lemma busy_create_loop:
  "create_loop example_env example_fs ''/data'' example_source (map pk (datasources busy_world))
     [refreshed example_digest 100 [104, 105] stale_row, foreign_row] (Suc 0) [''sub/.hidden/c.txt'']
   = Inr ([refreshed example_digest 101 [4] (new_DataFile 1 ''sub/.hidden/c.txt'')], 2)"
proof -
  have "full_clean (map pk (datasources busy_world))
          [refreshed example_digest 100 [104, 105] stale_row, foreign_row]
          (refreshed example_digest 101 [4] (new_DataFile 1 ''sub/.hidden/c.txt'')) = Inr ()"
    by (rule full_clean_refreshed_new) (simp_all add: busy_world_def other_source_def)
  then show ?thesis
    by (simp add: refresh_new_DataFile)
qed

lemma busy_sync_files:
  "sync_files example_env example_source example_fs ''/data'' (started example_source busy_world)
     = (Inr busy_report,
        bulk_create (clock example_env) 2
          [refreshed example_digest 101 [4] (new_DataFile 1 ''sub/.hidden/c.txt'')]
          ((started example_source busy_world)
             \<lparr>datafiles := [refreshed example_digest 100 [104, 105] stale_row, foreign_row]\<rparr>))"
proof -
  have da: "datafiles_all example_source (started example_source busy_world) = [stale_row, gone_row]"
    using busy_known by (simp add: datafiles_all_def)
  have df: "datafiles busy_world = [stale_row, gone_row, foreign_row]"
    by (simp add: busy_world_def)
  show ?thesis
    unfolding sync_files_def Let_def da busy_refresh_loop
    by (simp add: example_walk df busy_reconciled busy_create_loop busy_report_def
          del: create_loop.simps refresh_loop.simps)
qed

lemma busy_sync:
  "sync example_env example_source busy_world
     = (Inr busy_report, example_source\<lparr>status := Completed, last_synced := Some 103\<rparr>,
        busy_world_after)"
proof -
  note r = sync_files_ok_result [OF example_ready example_backend busy_sync_files]
  have "finished example_source (clock example_env (readings busy_report))
         (bulk_create (clock example_env) 2
          [refreshed example_digest 101 [4] (new_DataFile 1 ''sub/.hidden/c.txt'')]
          ((started example_source busy_world)
             \<lparr>datafiles := [refreshed example_digest 100 [104, 105] stale_row, foreign_row]\<rparr>))
        = busy_world_after"
    by (simp add: finished_def started_def update_datasource_def bulk_create_def busy_world_def
          busy_world_after_def busy_report_def other_source_def)
  with r show ?thesis by (simp add: busy_report_def)
qed

lemma example_create_loop:
  "create_loop example_env example_fs ''/data'' example_source (map pk (datasources example_world))
     [] 0 [''sub/.hidden/c.txt'', ''a.txt'']
   = Inr ([refreshed example_digest 100 [4] (new_DataFile 1 ''sub/.hidden/c.txt''),
           refreshed example_digest 101 [104, 105] (new_DataFile 1 ''a.txt'')], 2)"
proof -
  have "full_clean (map pk (datasources example_world)) []
      (refreshed example_digest 100 [4] (new_DataFile 1 ''sub/.hidden/c.txt'')) = Inr ()"
    by (rule full_clean_refreshed_new) (simp_all add: example_world_def)
  moreover have "full_clean (map pk (datasources example_world)) []
      (refreshed example_digest 101 [104, 105] (new_DataFile 1 ''a.txt'')) = Inr ()"
    by (rule full_clean_refreshed_new) (simp_all add: example_world_def)
  ultimately show ?thesis
    by (simp add: refresh_new_DataFile)
qed

lemma example_sync_files:
  "sync_files example_env example_source example_fs ''/data'' (started example_source example_world)
     = (Inr example_report,
        bulk_create (clock example_env) 2
          [refreshed example_digest 100 [4] (new_DataFile 1 ''sub/.hidden/c.txt''),
           refreshed example_digest 101 [104, 105] (new_DataFile 1 ''a.txt'')]
          ((started example_source example_world)\<lparr>datafiles := []\<rparr>))"
proof -
  have da: "datafiles_all example_source (started example_source example_world) = []"
    by (simp add: datafiles_all_def example_world_def)
  have df: "datafiles example_world = []"
    by (simp add: example_world_def)
  show ?thesis
    unfolding sync_files_def Let_def da
    by (simp add: example_walk df example_create_loop example_report_def delete_pks_def
          bulk_update_def del: create_loop.simps)
qed

lemma example_sync:
  "sync example_env example_source example_world
     = (Inr example_report, example_source\<lparr>status := Completed, last_synced := Some 104\<rparr>,
        example_world_after)"
proof -
  note r = sync_files_ok_result [OF example_ready example_backend example_sync_files]
  have "finished example_source (clock example_env (readings example_report))
         (bulk_create (clock example_env) 2
          [refreshed example_digest 100 [4] (new_DataFile 1 ''sub/.hidden/c.txt''),
           refreshed example_digest 101 [104, 105] (new_DataFile 1 ''a.txt'')]
          ((started example_source example_world)\<lparr>datafiles := []\<rparr>))
        = example_world_after"
    by (simp add: finished_def started_def update_datasource_def bulk_create_def example_world_def
          example_world_after_def example_report_def)
  with r show ?thesis by (simp add: example_report_def)
qed

lemma nested_walk: "ignore_rules self = [] \<Longrightarrow> walk self nested_fs ''/a'' = Inr [''b/f.txt'']"
  by (simp add: walk_def os_walk_def resolve_def nested_fs_def strip_root_def py_split_def
        lstrip_slash_def startswith_dot_def path_join_def ignore_def splitlines_def)

lemma nested_reads:
  "read_file nested_fs ''/a/b/f.txt'' = Inl FileNotFoundError"
  "read_file nested_fs ''/a/b/a/f.txt'' = Inr [1]"
  by (simp_all add: read_file_def resolve_def nested_fs_def)

lemma nested_join [simp]: "path_join ''/a'' ''b/f.txt'' = ''/a/b/f.txt''"
  by (simp add: path_join_def)

lemma nested_fields [simp]:
  "pk nested_source = 1" "ignore_rules nested_source = []" "source_url nested_source = ''/a''"
  "parameters nested_source = None"
  "sha256 nested_env = example_digest" "clock nested_env k = 100 + k"
  "path nested_row = ''b/f.txt''" "source nested_row = 1" "df_pk nested_row = Some 1"
  by (simp_all add: nested_source_def nested_env_def nested_row_def example_env_def)

lemma nested_ready: "ready_for_sync (nested_source\<lparr>status := s\<rparr>) = (s \<noteq> Queued \<and> s \<noteq> Syncing)"
  by (auto simp: ready_for_sync_def nested_source_def)

lemma nested_backend: "get_backend nested_env self = Inr (Inr (source_url self, nested_fs))"
  by (simp add: get_backend_def nested_env_def)

lemma nested_first_files:
  "sync_files nested_env nested_source nested_fs ''/a'' (started nested_source nested_world)
     = (Inr \<lparr>updated_files = [], deleted_file_ids = [Some 1], new_paths = [],
              new_datafiles = [], readings = 0\<rparr>,
        bulk_create (clock nested_env) 0 [] ((started nested_source nested_world)\<lparr>datafiles := []\<rparr>))"
proof -
  have da: "datafiles_all nested_source (started nested_source nested_world) = [nested_row]"
    by (simp add: datafiles_all_def nested_world_def)
  have df: "datafiles nested_world = [nested_row]" by (simp add: nested_world_def)
  show ?thesis
    unfolding sync_files_def Let_def da
    by (simp add: refresh_from_disk_eq nested_reads nested_walk df delete_pks_def bulk_update_def)
qed

lemma nested_first:
  "sync nested_env nested_source nested_world
     = (Inr \<lparr>updated_files = [], deleted_file_ids = [Some 1], new_paths = [],
              new_datafiles = [], readings = 0\<rparr>,
        nested_source\<lparr>status := Completed, last_synced := Some 100\<rparr>,
        nested_world_after)"
proof -
  have rdy: "ready_for_sync nested_source"
    by (simp add: ready_for_sync_def nested_source_def)
  have gb: "get_backend nested_env nested_source = Inr (Inr (''/a'', nested_fs))"
    by (simp add: nested_backend)
  note r = sync_files_ok_result [OF rdy gb nested_first_files]
  have "finished nested_source (clock nested_env 0)
          (bulk_create (clock nested_env) 0 [] ((started nested_source nested_world)\<lparr>datafiles := []\<rparr>))
        = nested_world_after"
    by (simp add: finished_def started_def update_datasource_def bulk_create_def nested_world_def
          nested_world_after_def)
  with r show ?thesis by simp
qed

lemma nested_second_files:
  "sync_files nested_env (nested_source\<lparr>status := Completed, last_synced := Some 100\<rparr>)
      nested_fs ''/a''
      (started (nested_source\<lparr>status := Completed, last_synced := Some 100\<rparr>) nested_world_after)
     = (Inl (OSError FileNotFoundError),
        (started (nested_source\<lparr>status := Completed, last_synced := Some 100\<rparr>) nested_world_after)
          \<lparr>datafiles := []\<rparr>)"
proof -
  have da: "datafiles_all (nested_source\<lparr>status := Completed, last_synced := Some 100\<rparr>)
      (started (nested_source\<lparr>status := Completed, last_synced := Some 100\<rparr>) nested_world_after) = []"
    by (simp add: datafiles_all_def nested_world_after_def)
  have df: "datafiles nested_world_after = []" by (simp add: nested_world_after_def)
  have wk: "walk (nested_source\<lparr>status := Completed, last_synced := Some 100\<rparr>) nested_fs ''/a''
      = Inr [''b/f.txt'']"
    by (rule nested_walk) simp
  show ?thesis
    unfolding sync_files_def Let_def da wk
    by (simp add: refresh_from_disk_eq nested_reads df delete_pks_def bulk_update_def)
qed

lemma nested_second:
  "sync nested_env (nested_source\<lparr>status := Completed, last_synced := Some 100\<rparr>) nested_world_after
     = (Inl (OSError FileNotFoundError),
        nested_source\<lparr>status := Syncing, last_synced := Some 100\<rparr>,
        (started (nested_source\<lparr>status := Completed, last_synced := Some 100\<rparr>) nested_world_after)
          \<lparr>datafiles := []\<rparr>)"
proof -
  have rdy: "ready_for_sync (nested_source\<lparr>status := Completed, last_synced := Some 100\<rparr>)"
    by (simp add: ready_for_sync_def nested_source_def example_source_def)
  have gb: "get_backend nested_env (nested_source\<lparr>status := Completed, last_synced := Some 100\<rparr>)
      = Inr (Inr (''/a'', nested_fs))"
    by (simp add: nested_backend)
  from sync_files_error_result [OF rdy gb nested_second_files] show ?thesis by simp
qed

section \<open>A run that fails\<close>
















section \<open>New files\<close>

text \<open>
  Claim C7.  In a run that completes, the new paths are the walked paths that are not
  among the paths of the rows the source had when the run began (so a path whose row the
  run deleted is not created again), without repetition.  For each of them one record is
  constructed, populated from disk by \<open>refresh_from_disk\<close> (which reports it modified) and
  validated by \<open>full_clean\<close>; and the records are appended to the table together, after
  the bulk update and the bulk deletion.
\<close>

theorem sync_creates_new_paths:
  assumes "sync e self w = (Inr rep, self', w')"
  shows "\<exists>local_path fs current_paths k.
      get_backend e self = Inr (Inr (local_path, fs))
    \<and> walk self fs local_path = Inr current_paths
    \<and> set (new_paths rep)
        = set current_paths - path ` {df \<in> set (datafiles w). source df = pk self}
    \<and> distinct (new_paths rep)
    \<and> map path (new_datafiles rep) = new_paths rep
    \<and> (\<forall>df \<in> set (new_datafiles rep).
          (\<exists>t. refresh_from_disk (sha256 e) fs t (new_DataFile (pk self) (path df)) local_path
                 = Inr (df, True))
          \<and> full_clean (map pk (datasources w)) (reconciled rep (datafiles w)) df = Inr ())
    \<and> datafiles w'
        = reconciled rep (datafiles w) @ stamp_new (clock e) (next_pk w) k (new_datafiles rep)
    \<and> map path (stamp_new (clock e) (next_pk w) k (new_datafiles rep)) = new_paths rep"
proof -
  from assms obtain lp fs k cur k' where
    gb: "get_backend e self = Inr (Inr (lp, fs))"
    and wk: "walk self fs lp = Inr cur"
    and np: "new_paths rep = filter (\<lambda>p. p \<notin> path ` set (datafiles_all self w)) cur"
    and cl: "create_loop e fs lp self (map pk (datasources w)) (reconciled rep (datafiles w)) k (new_paths rep) = Inr (new_datafiles rep, k')"
    and dw: "datafiles w' = reconciled rep (datafiles w) @ stamp_new (clock e) (next_pk w) k' (new_datafiles rep)"
    by (rule sync_Inr_files)
  from np have s: "set (new_paths rep)
        = set cur - path ` {df \<in> set (datafiles w). source df = pk self}"
    by auto
  from wk have "distinct cur" by (rule walk_distinct)
  with np have d: "distinct (new_paths rep)" by simp
  note st = create_loop_staged [OF cl]
  from st have m: "map path (new_datafiles rep) = new_paths rep" by (rule conjunct1)
  have p: "\<forall>df \<in> set (new_datafiles rep).
          (\<exists>t. refresh_from_disk (sha256 e) fs t (new_DataFile (pk self) (path df)) lp = Inr (df, True))
          \<and> full_clean (map pk (datasources w)) (reconciled rep (datafiles w)) df = Inr ()"
  proof
    fix df assume "df \<in> set (new_datafiles rep)"
    with st obtain t b where b: "read_file fs (path_join lp (path df)) = Inr b"
      and df: "df = refreshed (sha256 e) t b (new_DataFile (pk self) (path df))"
      and fc: "full_clean (map pk (datasources w)) (reconciled rep (datafiles w)) df = Inr ()"
      by blast
    from refresh_new_DataFile [OF b, of "sha256 e" t "pk self"] df
    have "refresh_from_disk (sha256 e) fs t (new_DataFile (pk self) (path df)) lp = Inr (df, True)"
      by simp
    with fc show "(\<exists>t. refresh_from_disk (sha256 e) fs t (new_DataFile (pk self) (path df)) lp = Inr (df, True))
          \<and> full_clean (map pk (datasources w)) (reconciled rep (datafiles w)) df = Inr ()"
      by blast
  qed
  have q: "map path (stamp_new (clock e) (next_pk w) k' (new_datafiles rep)) = new_paths rep"
    using m by simp
  from gb wk s d m p dw q show ?thesis by blast
qed

theorem sync_creates_new_paths_witness:
  "sync example_env example_source busy_world
     = (Inr busy_report, example_source\<lparr>status := Completed, last_synced := Some 103\<rparr>,
        busy_world_after)
   \<and> walk example_source example_fs ''/data'' = Inr [''sub/.hidden/c.txt'', ''a.txt'']
   \<and> path ` {df \<in> set (datafiles busy_world). source df = pk example_source} = {''a.txt'', ''gone.txt''}
   \<and> set (new_paths busy_report) = {''sub/.hidden/c.txt''}
   \<and> distinct (new_paths busy_report)
   \<and> map path (new_datafiles busy_report) = new_paths busy_report
   \<and> datafiles busy_world_after
        = reconciled busy_report (datafiles busy_world)
          @ stamp_new (clock example_env) (next_pk busy_world) 2 (new_datafiles busy_report)"
proof -
  from sync_creates_new_paths [OF busy_sync] obtain lp fs cur k where
    gb: "get_backend example_env example_source = Inr (Inr (lp, fs))"
    and wk: "walk example_source fs lp = Inr cur"
    and s: "set (new_paths busy_report)
        = set cur - path ` {df \<in> set (datafiles busy_world). source df = pk example_source}"
    and d: "distinct (new_paths busy_report)"
    and m: "map path (new_datafiles busy_report) = new_paths busy_report"
    by blast
  have known: "path ` {df \<in> set (datafiles busy_world). source df = pk example_source}
      = {''a.txt'', ''gone.txt''}"
  proof -
    have "{df \<in> set (datafiles busy_world). source df = pk example_source}
        = set (filter (\<lambda>df. source df = pk example_source) (datafiles busy_world))"
      by simp
    also have "\<dots> = {stale_row, gone_row}"
      by (simp add: busy_world_def)
    finally show ?thesis by simp
  qed
  have after: "datafiles busy_world_after
        = reconciled busy_report (datafiles busy_world)
          @ stamp_new (clock example_env) (next_pk busy_world) 2 (new_datafiles busy_report)"
    by (simp add: busy_world_after_def busy_world_def busy_report_def reconciled_def busy_reconciled)
  from gb have "lp = ''/data''" and "fs = example_fs"
    by (simp_all add: example_backend)
  with wk have "cur = [''sub/.hidden/c.txt'', ''a.txt'']"
    by (simp add: example_walk)
  with s known have "set (new_paths busy_report) = {''sub/.hidden/c.txt''}" by auto
  with busy_sync example_walk known d m after show ?thesis by (intro conjI)
qed

section \<open>What a run leaves alone\<close>

lemma frame_filter:
  assumes "\<And>row. row \<in> set T \<Longrightarrow> source row \<noteq> s \<Longrightarrow> f row = row \<and> Q row"
    and "\<And>row. source (f row) = source row"
  shows "filter (\<lambda>df. source df \<noteq> s) (filter Q (map f T)) = filter (\<lambda>df. source df \<noteq> s) T"
  using assms(1)
proof (induction T)
  case Nil
  then show ?case by simp
next
  case (Cons row T)
  from Cons.prems have ih: "filter (\<lambda>df. source df \<noteq> s) (filter Q (map f T)) = filter (\<lambda>df. source df \<noteq> s) T"
    by (intro Cons.IH) simp_all
  show ?case
  proof (cases "source row = s")
    case True
    with ih assms(2) [of row] show ?thesis by simp
  next
    case False
    with Cons.prems [of row] have "f row = row" and "Q row" by simp_all
    with ih False show ?thesis by simp
  qed
qed

lemma distinct_pk_eq:
  assumes "distinct (map df_pk T)" and "x \<in> set T" and "y \<in> set T" and "df_pk x = df_pk y"
  shows "x = y"
  using assms by (meson distinct_map inj_onD)

lemma bulk_update_source:
  "source (case find P u of None \<Rightarrow> row
           | Some obj \<Rightarrow> row\<lparr>last_updated := last_updated obj, size' := size' obj,
                              hash := hash obj, data := data obj\<rparr>) = source row"
  by (simp split: option.splits)

lemma reconciled_frame:
  assumes dist: "distinct (map df_pk T)"
    and rl: "refresh_loop e fs lp k0 dfs = Inr (updated_files rep, deleted_file_ids rep, k)"
    and sub: "set dfs \<subseteq> {df \<in> set T. source df = s}"
  shows "filter (\<lambda>df. source df \<noteq> s) (reconciled rep T) = filter (\<lambda>df. source df \<noteq> s) T"
  unfolding reconciled_def delete_pks_def bulk_update_def
proof (rule frame_filter)
  fix row
  show "source (case find (\<lambda>obj. df_pk obj = df_pk row) (updated_files rep) of None \<Rightarrow> row
           | Some obj \<Rightarrow> row\<lparr>last_updated := last_updated obj, size' := size' obj,
                              hash := hash obj, data := data obj\<rparr>) = source row"
    by (rule bulk_update_source)
next
  fix row assume row: "row \<in> set T" and other: "source row \<noteq> s"
  have no_obj: "df_pk obj \<noteq> df_pk row" if "obj \<in> set (updated_files rep)" for obj
  proof
    assume eq: "df_pk obj = df_pk row"
    from refresh_loop_updated [OF rl that] obtain df t b where
      df: "df \<in> set dfs" and obj: "obj = refreshed (sha256 e) t b df" by blast
    from df sub have "df \<in> set T" and "source df = s" by auto
    moreover from obj eq have "df_pk df = df_pk row" by simp
    ultimately have "df = row" using dist row by (intro distinct_pk_eq [of T]) simp_all
    with \<open>source df = s\<close> other show False by simp
  qed
  then have f: "find (\<lambda>obj. df_pk obj = df_pk row) (updated_files rep) = None"
    by (auto simp: find_None_iff)
  have nd: "df_pk row \<notin> set (deleted_file_ids rep)"
  proof
    assume "df_pk row \<in> set (deleted_file_ids rep)"
    from refresh_loop_deleted [OF rl this] obtain df where
      df: "df \<in> set dfs" and eq: "df_pk row = df_pk df" by blast
    from df sub have "df \<in> set T" and "source df = s" by auto
    with eq have "df = row" using dist row by (intro distinct_pk_eq [of T]) simp_all
    with \<open>source df = s\<close> other show False by simp
  qed
  from f nd show "(case find (\<lambda>obj. df_pk obj = df_pk row) (updated_files rep) of None \<Rightarrow> row
           | Some obj \<Rightarrow> row\<lparr>last_updated := last_updated obj, size' := size' obj,
                              hash := hash obj, data := data obj\<rparr>) = row
      \<and> df_pk row \<notin> set (deleted_file_ids rep)"
    by simp
qed

lemma staged_source:
  assumes "create_loop e fs lp self srcs table k ps = Inr (staged, k')" and "df \<in> set staged"
  shows "source df = pk self"
proof -
  from create_loop_staged [OF assms(1)] assms(2) obtain t b where
    "df = refreshed (sha256 e) t b (new_DataFile (pk self) (path df))" by blast
  then have "source df = source (refreshed (sha256 e) t b (new_DataFile (pk self) (path df)))"
    by simp
  then show ?thesis by simp
qed

lemma stamp_new_source:
  assumes "x \<in> set (stamp_new clk n k objs)"
  shows "source x \<in> source ` set objs"
  using assms by (induction objs arbitrary: n k) auto

text \<open>
  Claim C10.  A run that completes changes only \<open>status\<close> and \<open>last_synced\<close> of the
  instance and of its persisted row, and leaves every other row of the source table as it
  was; in the \<open>DataFile\<close> table, whose primary keys are distinct, the rows of every other
  source are as before, in the same order.
\<close>

theorem sync_frame:
  assumes "sync e self w = (Inr rep, self', w')" and "distinct (map df_pk (datafiles w))"
  shows "(\<exists>t. self' = self\<lparr>status := Completed, last_synced := Some t\<rparr>
            \<and> datasources w'
                = map (\<lambda>r. if pk r = pk self then r\<lparr>status := Completed, last_synced := Some t\<rparr> else r)
                    (datasources w))
         \<and> pk self' = pk self \<and> name self' = name self \<and> type' self' = type' self
         \<and> source_url self' = source_url self \<and> enabled self' = enabled self
         \<and> ignore_rules self' = ignore_rules self \<and> parameters self' = parameters self
         \<and> filter (\<lambda>df. source df \<noteq> pk self) (datafiles w')
              = filter (\<lambda>df. source df \<noteq> pk self) (datafiles w)"
proof -
  from assms(1) obtain lp fs w3 where
    gb: "get_backend e self = Inr (Inr (lp, fs))"
    and sf: "sync_files e self fs lp (started self w) = (Inr rep, w3)"
    and s': "self' = self\<lparr>status := Completed, last_synced := Some (clock e (readings rep))\<rparr>"
    and w': "w' = finished self (clock e (readings rep)) w3"
    by (rule sync_Inr)
  from sf have "datasources w3 = datasources (started self w)"
    by (auto dest: sync_files_frame)
  with w' have ds: "datasources w'
      = map (\<lambda>r. if pk r = pk self then r\<lparr>status := Completed, last_synced := Some (clock e (readings rep))\<rparr> else r)
          (datasources w)"
    by (simp add: comp_def if_distrib [of "\<lambda>r. if pk r = pk self then _ r else r"] cong: if_cong)
  from assms(1) obtain lp' fs' k cur k' where
    rl: "refresh_loop e fs' lp' 0 (datafiles_all self w) = Inr (updated_files rep, deleted_file_ids rep, k)"
    and cl: "create_loop e fs' lp' self (map pk (datasources w)) (reconciled rep (datafiles w)) k (new_paths rep) = Inr (new_datafiles rep, k')"
    and dw: "datafiles w' = reconciled rep (datafiles w) @ stamp_new (clock e) (next_pk w) k' (new_datafiles rep)"
    by (rule sync_Inr_files)
  have "set (datafiles_all self w) \<subseteq> {df \<in> set (datafiles w). source df = pk self}" by simp
  with assms(2) rl
  have old: "filter (\<lambda>df. source df \<noteq> pk self) (reconciled rep (datafiles w))
              = filter (\<lambda>df. source df \<noteq> pk self) (datafiles w)"
    by (rule reconciled_frame)
  have new: "filter (\<lambda>df. source df \<noteq> pk self) (stamp_new (clock e) (next_pk w) k' (new_datafiles rep)) = []"
  proof -
    have "source x = pk self" if "x \<in> set (stamp_new (clock e) (next_pk w) k' (new_datafiles rep))" for x
    proof -
      from stamp_new_source [OF that] obtain df where "df \<in> set (new_datafiles rep)"
        and "source x = source df" by auto
      with staged_source [OF cl] show ?thesis by simp
    qed
    then show ?thesis by (auto simp: filter_empty_conv)
  qed
  from old new dw have fr: "filter (\<lambda>df. source df \<noteq> pk self) (datafiles w')
              = filter (\<lambda>df. source df \<noteq> pk self) (datafiles w)"
    by simp
  from s' ds have a: "\<exists>t. self' = self\<lparr>status := Completed, last_synced := Some t\<rparr>
            \<and> datasources w'
                = map (\<lambda>r. if pk r = pk self then r\<lparr>status := Completed, last_synced := Some t\<rparr> else r)
                    (datasources w)"
    by blast
  from s' have b: "pk self' = pk self" "name self' = name self" "type' self' = type' self"
    "source_url self' = source_url self" "enabled self' = enabled self"
    "ignore_rules self' = ignore_rules self" "parameters self' = parameters self"
    by simp_all
  from a b fr show ?thesis by (intro conjI)
qed

theorem sync_frame_witness:
  "distinct (map df_pk (datafiles busy_world))
   \<and> sync example_env example_source busy_world
     = (Inr busy_report, example_source\<lparr>status := Completed, last_synced := Some 103\<rparr>,
        busy_world_after)
   \<and> datasources busy_world = [example_source, other_source]
   \<and> datasources busy_world_after
       = [example_source\<lparr>status := Completed, last_synced := Some 103\<rparr>, other_source]
   \<and> filter (\<lambda>df. source df \<noteq> pk example_source) (datafiles busy_world) = [foreign_row]
   \<and> filter (\<lambda>df. source df \<noteq> pk example_source) (datafiles busy_world_after) = [foreign_row]"
proof -
  have d: "distinct (map df_pk (datafiles busy_world))"
    by (simp add: busy_world_def)
  note f = sync_frame [OF busy_sync d]
  have a: "datasources busy_world = [example_source, other_source]"
    by (simp add: busy_world_def)
  have b: "datasources busy_world_after
       = [example_source\<lparr>status := Completed, last_synced := Some 103\<rparr>, other_source]"
    by (simp add: busy_world_after_def)
  have c: "filter (\<lambda>df. source df \<noteq> pk example_source) (datafiles busy_world) = [foreign_row]"
    by (simp add: busy_world_def)
  from f have "filter (\<lambda>df. source df \<noteq> pk example_source) (datafiles busy_world_after)
     = filter (\<lambda>df. source df \<noteq> pk example_source) (datafiles busy_world)"
    by blast
  with c have e: "filter (\<lambda>df. source df \<noteq> pk example_source) (datafiles busy_world_after) = [foreign_row]"
    by simp
  from d busy_sync a b c e show ?thesis by (intro conjI)
qed

section \<open>Consistency of the stored rows\<close>

lemma row_consistent_refreshed [simp]: "row_consistent H (refreshed H t b df)"
  by (simp add: row_consistent_def)

lemma row_consistent_fields:
  assumes "row_consistent H obj"
  shows "row_consistent H (row\<lparr>last_updated := t, size' := size' obj, hash := hash obj, data := data obj\<rparr>)"
  using assms by (simp add: row_consistent_def split: option.splits)

lemma row_consistent_stamp:
  "row_consistent H (obj\<lparr>df_pk := p, created := c\<rparr>) = row_consistent H obj"
  by (simp add: row_consistent_def split: option.splits)

lemma bulk_update_keys:
  "map (\<lambda>df. (source df, path df)) (bulk_update u T) = map (\<lambda>df. (source df, path df)) T"
  by (simp add: bulk_update_def comp_def split: option.splits)

lemma reconciled_keys:
  "set (map (\<lambda>df. (source df, path df)) (delete_pks d (bulk_update u T)))
     \<subseteq> set (map (\<lambda>df. (source df, path df)) T)"
proof -
  have "set (map (\<lambda>df. (source df, path df)) (delete_pks d (bulk_update u T)))
     \<subseteq> set (map (\<lambda>df. (source df, path df)) (bulk_update u T))"
    by (auto simp: delete_pks_def)
  then show ?thesis by (simp only: bulk_update_keys)
qed

lemma reconciled_consistent:
  assumes tc: "table_consistent H T"
    and rl: "refresh_loop e fs lp k0 dfs = Inr (u, d, k)"
    and H: "sha256 e = H"
  shows "table_consistent H (delete_pks d (bulk_update u T))"
proof -
  have rows: "row_consistent H row'" if "row' \<in> set (bulk_update u T)" for row'
  proof -
    from that obtain row where row: "row \<in> set T"
      and row': "row' = (case find (\<lambda>obj. df_pk obj = df_pk row) u of None \<Rightarrow> row
           | Some obj \<Rightarrow> row\<lparr>last_updated := last_updated obj, size' := size' obj,
                              hash := hash obj, data := data obj\<rparr>)"
      by (auto simp: bulk_update_def)
    from tc row have rc: "row_consistent H row" by (simp add: table_consistent_def list_all_iff)
    show ?thesis
    proof (cases "find (\<lambda>obj. df_pk obj = df_pk row) u")
      case None
      with row' rc show ?thesis by simp
    next
      case (Some obj)
      then have "obj \<in> set u" by (auto simp: find_Some_iff)
      from refresh_loop_updated [OF rl this] H obtain df t b where "obj = refreshed H t b df" by blast
      then have "row_consistent H obj" by simp
      with row' Some show ?thesis by (simp add: row_consistent_fields)
    qed
  qed
  then have a: "list_all (row_consistent H) (delete_pks d (bulk_update u T))"
    by (simp add: list_all_iff delete_pks_def)
  from tc have "distinct (map (\<lambda>df. (source df, path df)) (bulk_update u T))"
    by (simp add: bulk_update_keys table_consistent_def)
  then have b: "distinct (map (\<lambda>df. (source df, path df)) (delete_pks d (bulk_update u T)))"
    unfolding delete_pks_def by (rule distinct_map_filter)
  from a b show ?thesis by (simp add: table_consistent_def)
qed

lemma stamp_new_keys:
  "map (\<lambda>df. (source df, path df)) (stamp_new clk n k objs) = map (\<lambda>df. (source df, path df)) objs"
  by (induction objs arbitrary: n k) simp_all

lemma stamp_new_consistent:
  "list_all (row_consistent H) (stamp_new clk n k objs) = list_all (row_consistent H) objs"
  by (induction objs arbitrary: n k) (simp_all add: row_consistent_stamp)

lemma sync_Inr_consistent:
  assumes tc: "table_consistent (sha256 e) (datafiles w)"
    and ok: "sync e self w = (Inr rep, self', w')"
  shows "table_consistent (sha256 e) (datafiles w')"
proof -
  from ok obtain lp fs k cur k' where
    rl: "refresh_loop e fs lp 0 (datafiles_all self w) = Inr (updated_files rep, deleted_file_ids rep, k)"
    and wk: "walk self fs lp = Inr cur"
    and np: "new_paths rep = filter (\<lambda>p. p \<notin> path ` set (datafiles_all self w)) cur"
    and cl: "create_loop e fs lp self (map pk (datasources w)) (reconciled rep (datafiles w)) k (new_paths rep) = Inr (new_datafiles rep, k')"
    and dw: "datafiles w' = reconciled rep (datafiles w) @ stamp_new (clock e) (next_pk w) k' (new_datafiles rep)"
    by (rule sync_Inr_files)
  let ?key = "\<lambda>df. (source df, path df)"
  let ?T = "reconciled rep (datafiles w)"
  let ?N = "stamp_new (clock e) (next_pk w) k' (new_datafiles rep)"
  from reconciled_consistent [OF tc rl refl] have t2: "table_consistent (sha256 e) ?T"
    by (simp add: reconciled_def)
  note st = create_loop_staged [OF cl]
  have new_rows: "list_all (row_consistent (sha256 e)) ?N"
  proof -
    have "row_consistent (sha256 e) df" if "df \<in> set (new_datafiles rep)" for df
    proof -
      from st that obtain t b where
        "df = refreshed (sha256 e) t b (new_DataFile (pk self) (path df))" by blast
      then have "row_consistent (sha256 e) df = row_consistent (sha256 e)
          (refreshed (sha256 e) t b (new_DataFile (pk self) (path df)))" by simp
      then show ?thesis by simp
    qed
    then have "list_all (row_consistent (sha256 e)) (new_datafiles rep)"
      by (simp add: list_all_iff)
    then show ?thesis by (simp only: stamp_new_consistent)
  qed
  have src: "source df = pk self" if "df \<in> set (new_datafiles rep)" for df
    using cl that by (rule staged_source)
  from st have paths: "map path (new_datafiles rep) = new_paths rep" by (rule conjunct1)
  have keys: "map ?key ?N = map (\<lambda>p. (pk self, p)) (new_paths rep)"
  proof -
    have "map ?key (new_datafiles rep) = map (\<lambda>df. (pk self, path df)) (new_datafiles rep)"
      using src by simp
    also have "\<dots> = map (\<lambda>p. (pk self, p)) (map path (new_datafiles rep))" by (simp add: comp_def)
    finally show ?thesis by (simp add: stamp_new_keys paths)
  qed
  from wk have "distinct cur" by (rule walk_distinct)
  with np have "distinct (new_paths rep)" by simp
  then have dn: "distinct (map ?key ?N)"
    unfolding keys by (simp add: distinct_map inj_on_def)
  have disj: "set (map ?key ?T) \<inter> set (map ?key ?N) = {}"
  proof (rule ccontr)
    assume "set (map ?key ?T) \<inter> set (map ?key ?N) \<noteq> {}"
    then obtain x where x1: "x \<in> set (map ?key ?T)" and x2: "x \<in> set (map ?key ?N)" by blast
    from x2 keys obtain p where p: "p \<in> set (new_paths rep)" and x: "x = (pk self, p)" by auto
    from x1 reconciled_keys [of "deleted_file_ids rep" "updated_files rep" "datafiles w"]
    have "x \<in> set (map ?key (datafiles w))" unfolding reconciled_def by blast
    with x obtain df where "df \<in> set (datafiles w)" and "source df = pk self" and "path df = p"
      by auto
    then have "p \<in> path ` set (datafiles_all self w)" by auto
    with p np show False by simp
  qed
  from t2 new_rows dn disj show ?thesis
    unfolding dw by (simp add: table_consistent_def)
qed

lemma sync_files_Inl:
  assumes "sync_files e self fs lp w = (Inl err, w')"
  shows "datafiles w' = datafiles w
    \<or> (\<exists>u d k. refresh_loop e fs lp 0 (datafiles_all self w) = Inr (u, d, k)
          \<and> datafiles w' = delete_pks d (bulk_update u (datafiles w)))"
proof (cases "refresh_loop e fs lp 0 (datafiles_all self w)")
  case (Inl x)
  with assms show ?thesis by (simp add: sync_files_def)
next
  case (Inr r)
  obtain u d k where r: "r = (u, d, k)" by (cases r)
  with Inr have rl: "refresh_loop e fs lp 0 (datafiles_all self w) = Inr (u, d, k)" by simp
  from assms rl have "datafiles w' = delete_pks d (bulk_update u (datafiles w))"
    unfolding sync_files_def Let_def by (auto split: sum.splits prod.splits)
  with rl show ?thesis by blast
qed

lemma sync_Inl_consistent:
  assumes tc: "table_consistent (sha256 e) (datafiles w)"
    and bad: "sync e self w = (Inl err, self', w')"
  shows "table_consistent (sha256 e) (datafiles w')"
proof (cases "ready_for_sync self")
  case False
  from sync_not_ready [OF this] bad tc show ?thesis by simp
next
  case True
  show ?thesis
  proof (cases "get_backend e self")
    case (Inl x)
    from sync_backend_error [OF True Inl] bad tc show ?thesis by auto
  next
    case (Inr b)
    show ?thesis
    proof (cases b)
      case (Inl fe)
      with Inr have "get_backend e self = Inr (Inl fe)" by simp
      from sync_fetch_error [OF True this] bad tc show ?thesis by auto
    next
      case (Inr lf)
      obtain lp fs where lf: "lf = (lp, fs)" by (cases lf)
      with Inr \<open>get_backend e self = Inr b\<close> have gb: "get_backend e self = Inr (Inr (lp, fs))" by simp
      obtain r w3 where sf: "sync_files e self fs lp (started self w) = (r, w3)"
        by (cases "sync_files e self fs lp (started self w)")
      show ?thesis
      proof (cases r)
        case (Inr rep')
        with sf have "sync_files e self fs lp (started self w) = (Inr rep', w3)" by simp
        from sync_files_ok_result [OF True gb this] bad show ?thesis by simp
      next
        case (Inl err')
        with sf have sf': "sync_files e self fs lp (started self w) = (Inl err', w3)" by simp
        from sync_files_error_result [OF True gb sf'] bad have w': "w' = w3" by simp
        have da: "datafiles_all self (started self w) = datafiles_all self w"
          by (rule datafiles_all_cong) simp_all
        from sync_files_Inl [OF sf'] show ?thesis
        proof
          assume "datafiles w3 = datafiles (started self w)"
          with w' tc show ?thesis by simp
        next
          assume "\<exists>u d k. refresh_loop e fs lp 0 (datafiles_all self (started self w)) = Inr (u, d, k)
            \<and> datafiles w3 = delete_pks d (bulk_update u (datafiles (started self w)))"
          then obtain u d k where
            rl: "refresh_loop e fs lp 0 (datafiles_all self w) = Inr (u, d, k)"
            and d3: "datafiles w3 = delete_pks d (bulk_update u (datafiles w))"
            unfolding da by auto
          from reconciled_consistent [OF tc rl refl] d3 w' show ?thesis by simp
        qed
      qed
    qed
  qed
qed

lemma reachable_consistent: "reachable H w \<Longrightarrow> table_consistent H (datafiles w)"
proof (induction rule: reachable.induct)
  case (initial w)
  then show ?case by (simp add: table_consistent_def)
next
  case (synced w e self r self' w')
  show ?case
  proof (cases r)
    case (Inl err)
    with synced show ?thesis by (auto dest: sync_Inl_consistent)
  next
    case (Inr rep)
    with synced show ?thesis by (auto dest: sync_Inr_consistent)
  qed
next
  case (elsewhere w w')
  then show ?case by simp
next
  case (cascade w w' s)
  then show ?case
    by (auto simp: table_consistent_def list_all_iff intro: distinct_map_filter)
qed

lemma distinct_paths_of_source:
  "distinct (map (\<lambda>df. (source df, path df)) T)
   \<Longrightarrow> distinct (map path (filter (\<lambda>df. source df = s) T))"
proof (induction T)
  case Nil
  then show ?case by simp
next
  case (Cons a T)
  then have ih: "distinct (map path (filter (\<lambda>df. source df = s) T))" by simp
  show ?case
  proof (cases "source a = s")
    case False
    with ih show ?thesis by simp
  next
    case True
    have "path a \<notin> path ` {df \<in> set T. source df = s}"
    proof
      assume "path a \<in> path ` {df \<in> set T. source df = s}"
      then obtain x where "x \<in> set T" and "source x = s" and "path a = path x" by auto
      with True have "(source a, path a) \<in> (\<lambda>df. (source df, path df)) ` set T"
        by (intro image_eqI [of _ _ x]) simp_all
      with Cons.prems show False by simp
    qed
    with ih True show ?thesis by simp
  qed
qed

text \<open>
  Claim C8.  In every world the system can reach, after a run that completes every row of
  the source has a hash that is the hexadecimal SHA-256 digest of its stored data, 64
  characters from \<open>0-9a-f\<close>, and a size that is the number of bytes of that data, and no
  two rows of the source have the same path.
\<close>

theorem sync_keeps_rows_consistent:
  assumes "reachable (sha256 e) w" and "sync e self w = (Inr rep, self', w')"
  shows "(\<forall>df \<in> set (datafiles w'). source df = pk self \<longrightarrow>
            (\<exists>b. data df = Some b \<and> hash df = hexdigest (sha256 e b) \<and> size' df = Some (length b))
            \<and> length (hash df) = 64
            \<and> set (hash df) \<subseteq> set ''0123456789abcdef'')
         \<and> distinct (map path (filter (\<lambda>df. source df = pk self) (datafiles w')))"
proof -
  from assms(1) have "table_consistent (sha256 e) (datafiles w)" by (rule reachable_consistent)
  from this assms(2) have tc: "table_consistent (sha256 e) (datafiles w')"
    by (rule sync_Inr_consistent)
  have rows: "(\<exists>b. data df = Some b \<and> hash df = hexdigest (sha256 e b) \<and> size' df = Some (length b))
            \<and> length (hash df) = 64
            \<and> set (hash df) \<subseteq> set ''0123456789abcdef''"
    if "df \<in> set (datafiles w')" for df
  proof -
    from tc that have "row_consistent (sha256 e) df" by (simp add: table_consistent_def list_all_iff)
    then obtain b where b: "data df = Some b" "hash df = hexdigest (sha256 e b)" "size' df = Some (length b)"
      by (auto simp: row_consistent_def split: option.splits)
    from is_hex64_hexdigest [of "sha256 e b"] b(2)
    have "length (hash df) = 64" and "set (hash df) \<subseteq> set ''0123456789abcdef''"
      by (auto simp: is_hex64_def list_all_iff simp del: set_simps)
    with b show ?thesis by blast
  qed
  from tc have "distinct (map path (filter (\<lambda>df. source df = pk self) (datafiles w')))"
    by (intro distinct_paths_of_source) (simp add: table_consistent_def)
  with rows show ?thesis by blast
qed

theorem sync_keeps_rows_consistent_witness:
  "reachable (sha256 example_env) example_world
   \<and> sync example_env example_source example_world
       = (Inr example_report, example_source\<lparr>status := Completed, last_synced := Some 104\<rparr>,
          example_world_after)
   \<and> map source (datafiles example_world_after) = [pk example_source, pk example_source]
   \<and> list_all (\<lambda>df. row_consistent (sha256 example_env) df \<and> length (hash df) = 64
                     \<and> set (hash df) \<subseteq> set ''0123456789abcdef'')
        (datafiles example_world_after)
   \<and> distinct (map path (filter (\<lambda>df. source df = pk example_source) (datafiles example_world_after)))"
proof -
  have r: "reachable (sha256 example_env) example_world"
    by (rule reachable.initial) (simp add: example_world_def)
  note t = sync_keeps_rows_consistent [OF r example_sync]
  have s: "map source (datafiles example_world_after) = [pk example_source, pk example_source]"
    by (simp add: example_world_after_def)
  then have all: "\<forall>df \<in> set (datafiles example_world_after). source df = pk example_source"
    by (simp add: example_world_after_def)
  have "list_all (\<lambda>df. row_consistent (sha256 example_env) df \<and> length (hash df) = 64
                     \<and> set (hash df) \<subseteq> set ''0123456789abcdef'')
        (datafiles example_world_after)"
    unfolding list_all_iff
  proof
    fix df assume df: "df \<in> set (datafiles example_world_after)"
    with all have "source df = pk example_source" by blast
    with t df have "(\<exists>b. data df = Some b \<and> hash df = hexdigest (sha256 example_env b)
          \<and> size' df = Some (length b))
        \<and> length (hash df) = 64 \<and> set (hash df) \<subseteq> set ''0123456789abcdef''"
      by blast
    then show "row_consistent (sha256 example_env) df \<and> length (hash df) = 64
                     \<and> set (hash df) \<subseteq> set ''0123456789abcdef''"
      by (auto simp: row_consistent_def simp del: set_simps)
  qed
  moreover from t have "distinct (map path (filter (\<lambda>df. source df = pk example_source)
      (datafiles example_world_after)))"
    by blast
  ultimately show ?thesis using r example_sync s by (intro conjI)
qed

section \<open>Reading the stored data back\<close>

lemma stamp_new_member:
  assumes "df \<in> set objs"
  shows "\<exists>p c. df\<lparr>df_pk := p, created := c\<rparr> \<in> set (stamp_new clk n k objs)"
  using assms
proof (induction objs arbitrary: n k)
  case Nil
  then show ?case by simp
next
  case (Cons obj objs)
  show ?case
  proof (cases "df = obj")
    case True
    then show ?thesis by auto
  next
    case False
    with Cons.prems have "df \<in> set objs" by simp
    from Cons.IH [OF this, of "Suc n" "Suc k"] show ?thesis by auto
  qed
qed

lemma get_data_stored:
  "data row = Some b \<Longrightarrow> get_data decode_utf8 safe_load row = safe_load (decode_utf8 b)"
  by (simp add: get_data_def data_as_string_def)

lemma updated_row_kept:
  assumes dist: "distinct (map df_pk T)"
    and rl: "refresh_loop e fs lp k0 dfs = Inr (updated_files rep, deleted_file_ids rep, k)"
    and sub: "set dfs \<subseteq> {df \<in> set T. source df = s}"
    and df: "df \<in> set (updated_files rep)"
  shows "\<exists>b row. read_file fs (path_join lp (path df)) = Inr b
      \<and> row \<in> set (reconciled rep T) \<and> source row = s \<and> path row = path df \<and> data row = Some b"
proof -
  from refresh_loop_updated [OF rl df] obtain df0 t b where
    df0: "df0 \<in> set dfs" and b: "read_file fs (path_join lp (path df0)) = Inr b"
    and dfe: "df = refreshed (sha256 e) t b df0" by blast
  from df0 sub have df0T: "df0 \<in> set T" and src: "source df0 = s" by auto
  let ?f = "\<lambda>row. case find (\<lambda>obj. df_pk obj = df_pk row) (updated_files rep) of None \<Rightarrow> row
           | Some obj \<Rightarrow> row\<lparr>last_updated := last_updated obj, size' := size' obj,
                              hash := hash obj, data := data obj\<rparr>"
  from df dfe have "find (\<lambda>obj. df_pk obj = df_pk df0) (updated_files rep) \<noteq> None"
    by (auto simp: find_None_iff)
  then obtain obj where fo: "find (\<lambda>obj. df_pk obj = df_pk df0) (updated_files rep) = Some obj"
    by auto
  then have obj: "obj \<in> set (updated_files rep)" and opk: "df_pk obj = df_pk df0"
    by (auto simp: find_Some_iff)
  from refresh_loop_updated [OF rl obj] obtain df1 t1 b1 where
    df1: "df1 \<in> set dfs" and b1: "read_file fs (path_join lp (path df1)) = Inr b1"
    and obje: "obj = refreshed (sha256 e) t1 b1 df1" by blast
  from df1 sub have "df1 \<in> set T" by auto
  moreover from obje opk have "df_pk df1 = df_pk df0" by simp
  ultimately have "df1 = df0" using dist df0T by (intro distinct_pk_eq [of T]) simp_all
  with b b1 have "b1 = b" by simp
  with obje have od: "data obj = Some b" by simp
  have nd: "df_pk df0 \<notin> set (deleted_file_ids rep)"
  proof
    assume "df_pk df0 \<in> set (deleted_file_ids rep)"
    from refresh_loop_deleted [OF rl this] obtain df2 where
      df2: "df2 \<in> set dfs" and eq: "df_pk df0 = df_pk df2"
      and gone: "read_file fs (path_join lp (path df2)) = Inl FileNotFoundError" by blast
    from df2 sub have "df2 \<in> set T" by auto
    with eq have "df2 = df0" using dist df0T by (intro distinct_pk_eq [of T]) simp_all
    with gone b show False by simp
  qed
  define row where "row = df0\<lparr>last_updated := last_updated obj, size' := size' obj,
                              hash := hash obj, data := data obj\<rparr>"
  from fo have frow: "?f df0 = row" by (simp add: row_def)
  from df0T have "?f df0 \<in> ?f ` set T" by (rule imageI)
  then have "row \<in> set (bulk_update (updated_files rep) T)"
    unfolding frow by (simp add: bulk_update_def)
  moreover have "df_pk row = df_pk df0" by (simp add: row_def)
  ultimately have "row \<in> set (reconciled rep T)"
    using nd by (simp add: reconciled_def delete_pks_def)
  moreover from src have "source row = s" by (simp add: row_def)
  moreover from dfe have "path row = path df" by (simp add: row_def)
  moreover from od have "data row = Some b" by (simp add: row_def)
  moreover from b dfe have "read_file fs (path_join lp (path df)) = Inr b" by simp
  ultimately show ?thesis by blast
qed

text \<open>
  Claim C9.  For every record that a completed run updated or created, the table then
  holds a row of the source at that path whose data are the bytes of the file, and
  \<open>get_data\<close> on that row returns what the parser returns on the decoded bytes of the
  file: when the bytes decode and the text parses to a value, that value.
\<close>

theorem get_data_round_trip:
  assumes "sync e self w = (Inr rep, self', w')" and "distinct (map df_pk (datafiles w))"
    and "df \<in> set (updated_files rep) \<union> set (new_datafiles rep)"
  shows "\<exists>local_path fs b row.
      get_backend e self = Inr (Inr (local_path, fs))
    \<and> read_file fs (path_join local_path (path df)) = Inr b
    \<and> row \<in> set (datafiles w') \<and> source row = pk self \<and> path row = path df
    \<and> data row = Some b
    \<and> get_data decode_utf8 safe_load row = safe_load (decode_utf8 b)
    \<and> (\<forall>t v. decode_utf8 b = Some t \<and> safe_load (Some t) = Inr v
           \<longrightarrow> get_data decode_utf8 safe_load row = Inr v)"
proof -
  from assms(1) obtain lp fs k cur k' where
    gb: "get_backend e self = Inr (Inr (lp, fs))"
    and rl: "refresh_loop e fs lp 0 (datafiles_all self w) = Inr (updated_files rep, deleted_file_ids rep, k)"
    and cl: "create_loop e fs lp self (map pk (datasources w)) (reconciled rep (datafiles w)) k (new_paths rep) = Inr (new_datafiles rep, k')"
    and dw: "datafiles w' = reconciled rep (datafiles w) @ stamp_new (clock e) (next_pk w) k' (new_datafiles rep)"
    by (rule sync_Inr_files)
  have "\<exists>b row. read_file fs (path_join lp (path df)) = Inr b
      \<and> row \<in> set (datafiles w') \<and> source row = pk self \<and> path row = path df \<and> data row = Some b"
  proof (cases "df \<in> set (updated_files rep)")
    case True
    have "set (datafiles_all self w) \<subseteq> {df \<in> set (datafiles w). source df = pk self}" by simp
    from updated_row_kept [OF assms(2) rl this True] dw show ?thesis by auto
  next
    case False
    with assms(3) have new: "df \<in> set (new_datafiles rep)" by simp
    from create_loop_staged [OF cl] new obtain t b where
      b: "read_file fs (path_join lp (path df)) = Inr b"
      and dfe: "df = refreshed (sha256 e) t b (new_DataFile (pk self) (path df))" by blast
    from stamp_new_member [OF new] obtain p c where
      "df\<lparr>df_pk := p, created := c\<rparr> \<in> set (stamp_new (clock e) (next_pk w) k' (new_datafiles rep))"
      by blast
    with dw have "df\<lparr>df_pk := p, created := c\<rparr> \<in> set (datafiles w')" by simp
    moreover from dfe have "data df = Some b" and "source df = pk self"
      by (metis refreshed_simps(5), metis refreshed_simps(2) new_DataFile_simps(2))
    ultimately show ?thesis using b
      by (intro exI [of _ b] exI [of _ "df\<lparr>df_pk := p, created := c\<rparr>"]) simp
  qed
  then obtain b row where b: "read_file fs (path_join lp (path df)) = Inr b"
    and row: "row \<in> set (datafiles w')" "source row = pk self" "path row = path df"
    and d: "data row = Some b" by blast
  from d have g: "get_data decode_utf8 safe_load row = safe_load (decode_utf8 b)"
    by (rule get_data_stored)
  then have "\<forall>t v. decode_utf8 b = Some t \<and> safe_load (Some t) = Inr v
           \<longrightarrow> get_data decode_utf8 safe_load row = Inr v"
    by simp
  with gb b row d g show ?thesis by blast
qed

theorem get_data_round_trip_witness:
  "sync example_env example_source busy_world
     = (Inr busy_report, example_source\<lparr>status := Completed, last_synced := Some 103\<rparr>,
        busy_world_after)
   \<and> distinct (map df_pk (datafiles busy_world))
   \<and> refreshed example_digest 100 [104, 105] stale_row
       \<in> set (updated_files busy_report) \<union> set (new_datafiles busy_report)
   \<and> read_file example_fs (path_join ''/data'' (path (refreshed example_digest 100 [104, 105] stale_row)))
       = Inr [104, 105]
   \<and> example_load (example_decode [104, 105]) = Inr [''hi'']
   \<and> (\<exists>row. row \<in> set (datafiles busy_world_after) \<and> source row = pk example_source
          \<and> path row = ''a.txt'' \<and> data row = Some [104, 105]
          \<and> get_data example_decode example_load row = Inr [''hi''])"
proof -
  have d: "distinct (map df_pk (datafiles busy_world))"
    by (simp add: busy_world_def)
  have m: "refreshed example_digest 100 [104, 105] stale_row
       \<in> set (updated_files busy_report) \<union> set (new_datafiles busy_report)"
    by (simp add: busy_report_def)
  have rd: "read_file example_fs (path_join ''/data'' (path (refreshed example_digest 100 [104, 105] stale_row)))
       = Inr [104, 105]"
    by simp
  have ld: "example_load (example_decode [104, 105]) = Inr [''hi'']"
    by code_simp
  from get_data_round_trip [OF busy_sync d m, of example_decode example_load]
  obtain lp fs b row where
    gb: "get_backend example_env example_source = Inr (Inr (lp, fs))"
    and b: "read_file fs (path_join lp (path (refreshed example_digest 100 [104, 105] stale_row))) = Inr b"
    and row: "row \<in> set (datafiles busy_world_after)" "source row = pk example_source"
      "path row = path (refreshed example_digest 100 [104, 105] stale_row)" "data row = Some b"
    and g: "get_data example_decode example_load row = example_load (example_decode b)"
    by blast
  from gb have "lp = ''/data''" and "fs = example_fs" by (simp_all add: example_backend)
  with b rd have "b = [104, 105]" by simp
  with row g ld have "row \<in> set (datafiles busy_world_after) \<and> source row = pk example_source
          \<and> path row = ''a.txt'' \<and> data row = Some [104, 105]
          \<and> get_data example_decode example_load row = Inr [''hi'']"
    by simp
  then have ex: "\<exists>row. row \<in> set (datafiles busy_world_after) \<and> source row = pk example_source
          \<and> path row = ''a.txt'' \<and> data row = Some [104, 105]
          \<and> get_data example_decode example_load row = Inr [''hi'']"
    by blast
  from busy_sync d m rd ld ex show ?thesis by (intro conjI)
qed

section \<open>Two runs in succession\<close>

lemma refresh_loop_each:
  assumes "refresh_loop e fs lp k dfs = Inr (u, d, k')" and "df \<in> set dfs"
  shows "(read_file fs (path_join lp (path df)) = Inl FileNotFoundError \<and> df_pk df \<in> set d)
       \<or> (\<exists>b. read_file fs (path_join lp (path df)) = Inr b \<and> hexdigest (sha256 e b) = hash df)
       \<or> (\<exists>b t. read_file fs (path_join lp (path df)) = Inr b \<and> hexdigest (sha256 e b) \<noteq> hash df
                 \<and> refreshed (sha256 e) t b df \<in> set u)"
  using assms
proof (induction dfs arbitrary: k u d)
  case Nil
  then show ?case by simp
next
  case (Cons x dfs)
  show ?case
  proof (cases "refresh_from_disk (sha256 e) fs (clock e k) x lp")
    case (Inl oe)
    with Cons.prems(1) obtain d0 where rest: "refresh_loop e fs lp k dfs = Inr (u, d0, k')"
      and d: "d = df_pk x # d0" and oe: "oe = FileNotFoundError"
      by (auto split: oserror.splits sum.splits)
    show ?thesis
    proof (cases "df = x")
      case True
      from Inl oe have "read_file fs (path_join lp (path x)) = Inl FileNotFoundError"
        by (simp add: refresh_from_disk_Inl)
      with True d show ?thesis by simp
    next
      case False
      with Cons.prems(2) have "df \<in> set dfs" by simp
      from Cons.IH [OF rest this] d show ?thesis by auto
    qed
  next
    case (Inr r)
    obtain x' m where r: "r = (x', m)" by (cases r)
    with Inr Cons.prems(1) obtain u0 where
      rest: "refresh_loop e fs lp (if m then Suc k else k) dfs = Inr (u0, d, k')"
      and u: "u = (if m then x' # u0 else u0)"
      by (auto split: sum.splits)
    show ?thesis
    proof (cases "df = x")
      case True
      from Inr r obtain b where b: "read_file fs (path_join lp (path x)) = Inr b"
        and mt: "m \<Longrightarrow> hexdigest (sha256 e b) \<noteq> hash x \<and> x' = refreshed (sha256 e) (clock e k) b x"
        and mf: "\<not> m \<Longrightarrow> hexdigest (sha256 e b) = hash x \<and> x' = x"
        by (auto elim: refresh_from_disk_Inr)
      show ?thesis
      proof (cases m)
        case True
        from mt [OF True] u True have "refreshed (sha256 e) (clock e k) b x \<in> set u"
          and "hexdigest (sha256 e b) \<noteq> hash x" by simp_all
        with b \<open>df = x\<close> show ?thesis by blast
      next
        case False
        from mf [OF False] b \<open>df = x\<close> show ?thesis by blast
      qed
    next
      case False
      with Cons.prems(2) have "df \<in> set dfs" by simp
      from Cons.IH [OF rest this] u show ?thesis by (auto split: if_splits)
    qed
  qed
qed

lemma refresh_loop_unchanged:
  assumes "\<forall>df \<in> set dfs. \<exists>b. read_file fs (path_join lp (path df)) = Inr b
              \<and> hexdigest (sha256 e b) = hash df"
  shows "refresh_loop e fs lp k dfs = Inr ([], [], k)"
  using assms
proof (induction dfs)
  case Nil
  then show ?case by simp
next
  case (Cons df dfs)
  from Cons.prems obtain b where "read_file fs (path_join lp (path df)) = Inr b"
    and "hexdigest (sha256 e b) = hash df" by auto
  then have "refresh_from_disk (sha256 e) fs (clock e k) df lp = Inr (df, False)"
    by (simp add: refresh_from_disk_eq)
  moreover from Cons have "refresh_loop e fs lp k dfs = Inr ([], [], k)" by simp
  ultimately show ?case by simp
qed

text \<open>The rows of the source after a run that completed agree with the disk.\<close>

lemma sync_Inr_rows_current:
  assumes first: "sync e self w = (Inr rep, self', w')"
    and dist: "distinct (map df_pk (datafiles w))"
    and gb: "get_backend e self = Inr (Inr (lp, fs))"
    and df: "df \<in> set (datafiles w')" "source df = pk self"
  shows "\<exists>b. read_file fs (path_join lp (path df)) = Inr b \<and> hexdigest (sha256 e b) = hash df"
proof -
  from first obtain lp' fs' k cur k' where
    gb': "get_backend e self = Inr (Inr (lp', fs'))"
    and rl: "refresh_loop e fs' lp' 0 (datafiles_all self w) = Inr (updated_files rep, deleted_file_ids rep, k)"
    and cl: "create_loop e fs' lp' self (map pk (datasources w)) (reconciled rep (datafiles w)) k (new_paths rep) = Inr (new_datafiles rep, k')"
    and dw: "datafiles w' = reconciled rep (datafiles w) @ stamp_new (clock e) (next_pk w) k' (new_datafiles rep)"
    by (rule sync_Inr_files)
  from gb gb' have [simp]: "lp' = lp" "fs' = fs" by simp_all
  from df(1) dw consider (old) "df \<in> set (reconciled rep (datafiles w))"
    | (new) "df \<in> set (stamp_new (clock e) (next_pk w) k' (new_datafiles rep))" by auto
  then show ?thesis
  proof cases
    case new
    have "\<exists>obj \<in> set objs. \<exists>p c. x = obj\<lparr>df_pk := p, created := c\<rparr>"
      if "x \<in> set (stamp_new clk n j objs)" for x clk n j objs
      using that by (induction objs arbitrary: n j) auto
    from this [OF new] obtain obj p c where obj: "obj \<in> set (new_datafiles rep)"
      and dfe: "df = obj\<lparr>df_pk := p, created := c\<rparr>" by blast
    from create_loop_staged [OF cl] obj obtain t b where
      b: "read_file fs (path_join lp (path obj)) = Inr b"
      and oe: "obj = refreshed (sha256 e) t b (new_DataFile (pk self) (path obj))" by auto
    from oe have "hash obj = hexdigest (sha256 e b)"
      by (metis refreshed_simps(6))
    with b dfe show ?thesis by simp
  next
    case old
    let ?f = "\<lambda>row. case find (\<lambda>obj. df_pk obj = df_pk row) (updated_files rep) of None \<Rightarrow> row
           | Some obj \<Rightarrow> row\<lparr>last_updated := last_updated obj, size' := size' obj,
                              hash := hash obj, data := data obj\<rparr>"
    from old obtain row where row: "row \<in> set (datafiles w)" and dfe: "df = ?f row"
      and nd: "df_pk df \<notin> set (deleted_file_ids rep)"
      by (auto simp: reconciled_def delete_pks_def bulk_update_def)
    have fsrc: "source (?f row) = source row" and fpk: "df_pk (?f row) = df_pk row"
      and fpath: "path (?f row) = path row"
      by (simp_all split: option.splits)
    from dfe df(2) fsrc have "source row = pk self" by simp
    with row have rowin: "row \<in> set (datafiles_all self w)" by simp
    have same_row: "x = row" if "x \<in> set (datafiles_all self w)" "df_pk x = df_pk row" for x
    proof -
      from that(1) have "x \<in> set (datafiles w)" by simp
      with dist row that(2) show ?thesis by (intro distinct_pk_eq [of "datafiles w"]) simp_all
    qed
    from refresh_loop_each [OF rl rowin]
    consider (gone) "df_pk row \<in> set (deleted_file_ids rep)"
      | (same) b where "read_file fs (path_join lp (path row)) = Inr b" "hexdigest (sha256 e b) = hash row"
      | (changed) b t where "read_file fs (path_join lp (path row)) = Inr b"
          "hexdigest (sha256 e b) \<noteq> hash row" "refreshed (sha256 e) t b row \<in> set (updated_files rep)"
      by auto
    then show ?thesis
    proof cases
      case gone
      with nd dfe fpk show ?thesis by simp
    next
      case same
      have "find (\<lambda>obj. df_pk obj = df_pk row) (updated_files rep) = None"
      proof (rule ccontr)
        assume "find (\<lambda>obj. df_pk obj = df_pk row) (updated_files rep) \<noteq> None"
        then obtain obj where "obj \<in> set (updated_files rep)" and "df_pk obj = df_pk row"
          by (auto simp: find_None_iff)
        from refresh_loop_updated [OF rl this(1)] obtain x t b' where
          x: "x \<in> set (datafiles_all self w)"
          and b': "read_file fs (path_join lp (path x)) = Inr b'"
          and ne: "hexdigest (sha256 e b') \<noteq> hash x"
          and oe: "obj = refreshed (sha256 e) t b' x" by auto
        from oe \<open>df_pk obj = df_pk row\<close> have "df_pk x = df_pk row" by simp
        from same_row [OF x this] b' ne same show False by simp
      qed
      with dfe have "df = row" by simp
      with same show ?thesis by auto
    next
      case changed
      from changed(3) have "find (\<lambda>obj. df_pk obj = df_pk row) (updated_files rep) \<noteq> None"
        by (auto simp: find_None_iff)
      then obtain obj where fo: "find (\<lambda>obj. df_pk obj = df_pk row) (updated_files rep) = Some obj"
        by auto
      then have "obj \<in> set (updated_files rep)" and opk: "df_pk obj = df_pk row"
        by (auto simp: find_Some_iff)
      from refresh_loop_updated [OF rl this(1)] obtain x t' b' where
        x: "x \<in> set (datafiles_all self w)"
        and b': "read_file fs (path_join lp (path x)) = Inr b'"
        and oe: "obj = refreshed (sha256 e) t' b' x" by auto
      from oe opk have "df_pk x = df_pk row" by simp
      from same_row [OF x this] b' changed(1) have "b' = b" by simp
      with oe have "hash obj = hexdigest (sha256 e b)" by simp
      with dfe fo have "hash df = hexdigest (sha256 e b)" by simp
      moreover from dfe fpath have "path df = path row" by simp
      ultimately show ?thesis using changed(1) by simp
    qed
  qed
qed

lemma bulk_update_Nil [simp]: "bulk_update [] table = table"
  by (simp add: bulk_update_def)

lemma delete_pks_Nil [simp]: "delete_pks [] table = table"
  by (simp add: delete_pks_def)

lemma kept_row_in_reconciled:
  assumes dist: "distinct (map df_pk T)"
    and rl: "refresh_loop e fs lp k0 dfs = Inr (updated_files rep, deleted_file_ids rep, k)"
    and sub: "set dfs \<subseteq> set T"
    and row: "row \<in> set dfs"
    and b: "read_file fs (path_join lp (path row)) = Inr b"
  shows "\<exists>df \<in> set (reconciled rep T). source df = source row \<and> path df = path row"
proof -
  let ?f = "\<lambda>row. case find (\<lambda>obj. df_pk obj = df_pk row) (updated_files rep) of None \<Rightarrow> row
           | Some obj \<Rightarrow> row\<lparr>last_updated := last_updated obj, size' := size' obj,
                              hash := hash obj, data := data obj\<rparr>"
  have fsrc: "source (?f row) = source row" and fpk: "df_pk (?f row) = df_pk row"
    and fpath: "path (?f row) = path row"
    by (simp_all split: option.splits)
  have nd: "df_pk row \<notin> set (deleted_file_ids rep)"
  proof
    assume "df_pk row \<in> set (deleted_file_ids rep)"
    from refresh_loop_deleted [OF rl this] obtain x where
      x: "x \<in> set dfs" and eq: "df_pk row = df_pk x"
      and gone: "read_file fs (path_join lp (path x)) = Inl FileNotFoundError" by blast
    from x sub row have "x \<in> set T" and "row \<in> set T" by auto
    with dist eq have "x = row" by (intro distinct_pk_eq [of T]) simp_all
    with gone b show False by simp
  qed
  from row sub have "row \<in> set T" by auto
  then have "?f row \<in> ?f ` set T" by (rule imageI)
  then have "?f row \<in> set (bulk_update (updated_files rep) T)"
    by (simp add: bulk_update_def)
  with nd fpk have "?f row \<in> set (reconciled rep T)"
    by (simp add: reconciled_def delete_pks_def)
  with fsrc fpath show ?thesis by blast
qed

text \<open>
  When every path that the walk names is a file, a second run on the same replica, with
  the same hash function and any clock, completes and stages nothing: the table is as the
  first run left it, and \<open>last_synced\<close> is the first reading of the second clock.
\<close>

lemma second_run_stages_nothing:
  assumes first: "sync e self w = (Inr rep, self', w')"
    and dist: "distinct (map df_pk (datafiles w))"
    and same: "get_backend e2 self' = get_backend e self" "sha256 e2 = sha256 e"
    and real: "\<And>lp fs cur p. get_backend e self = Inr (Inr (lp, fs)) \<Longrightarrow> walk self fs lp = Inr cur
                 \<Longrightarrow> p \<in> set cur \<Longrightarrow> \<exists>b. read_file fs (path_join lp p) = Inr b"
  shows "sync e2 self' w'
     = (Inr \<lparr>updated_files = [], deleted_file_ids = [], new_paths = [], new_datafiles = [],
              readings = 0\<rparr>,
        self'\<lparr>last_synced := Some (clock e2 0)\<rparr>,
        finished self' (clock e2 0) (started self' w'))"
proof -
  from first obtain lp fs w3 where
    rdy: "ready_for_sync self"
    and gb: "get_backend e self = Inr (Inr (lp, fs))"
    and s': "self' = self\<lparr>status := Completed, last_synced := Some (clock e (readings rep))\<rparr>"
    by (rule sync_Inr)
  from first obtain lp' fs' k cur k' where
    gb': "get_backend e self = Inr (Inr (lp', fs'))"
    and rl: "refresh_loop e fs' lp' 0 (datafiles_all self w) = Inr (updated_files rep, deleted_file_ids rep, k)"
    and wk: "walk self fs' lp' = Inr cur"
    and np: "new_paths rep = filter (\<lambda>p. p \<notin> path ` set (datafiles_all self w)) cur"
    and cl: "create_loop e fs' lp' self (map pk (datasources w)) (reconciled rep (datafiles w)) k (new_paths rep) = Inr (new_datafiles rep, k')"
    and dw: "datafiles w' = reconciled rep (datafiles w) @ stamp_new (clock e) (next_pk w) k' (new_datafiles rep)"
    by (rule sync_Inr_files)
  from gb gb' have [simp]: "lp' = lp" "fs' = fs" by simp_all
  from s' have pk': "pk self' = pk self" and ig: "ignore self' = ignore self"
    by (simp_all add: ignore_def fun_eq_iff)
  from rdy s' have rdy': "ready_for_sync self'" by (simp add: ready_for_sync_def)
  from same(1) gb have gb2: "get_backend e2 self' = Inr (Inr (lp, fs))" by simp
  have wk2: "walk self' fs lp = Inr cur"
    using wk walk_loop_cong_ignore [OF ig] by (simp add: walk_def)
  let ?w = "started self' w'"
  let ?dfs = "datafiles_all self' ?w"
  have dfs: "set ?dfs = {df \<in> set (datafiles w'). source df = pk self}"
    by (simp add: pk')
  have cur_rows: "\<forall>df \<in> set ?dfs. \<exists>b. read_file fs (path_join lp (path df)) = Inr b
              \<and> hexdigest (sha256 e2 b) = hash df"
  proof
    fix df assume "df \<in> set ?dfs"
    with dfs have "df \<in> set (datafiles w')" and "source df = pk self" by auto
    from sync_Inr_rows_current [OF first dist gb this] same(2)
    show "\<exists>b. read_file fs (path_join lp (path df)) = Inr b \<and> hexdigest (sha256 e2 b) = hash df"
      by simp
  qed
  then have rl2: "refresh_loop e2 fs lp 0 ?dfs = Inr ([], [], 0)"
    by (rule refresh_loop_unchanged)
  have known: "p \<in> path ` set ?dfs" if p: "p \<in> set cur" for p
  proof (cases "p \<in> path ` set (datafiles_all self w)")
    case True
    then obtain row where row: "row \<in> set (datafiles_all self w)" and pr: "path row = p" by auto
    from real [OF gb _ p] wk obtain b where "read_file fs (path_join lp p) = Inr b" by auto
    with pr have b: "read_file fs (path_join lp (path row)) = Inr b" by simp
    have sub: "set (datafiles_all self w) \<subseteq> set (datafiles w)" by auto
    from rl have rl': "refresh_loop e fs lp 0 (datafiles_all self w)
        = Inr (updated_files rep, deleted_file_ids rep, k)" by simp
    from kept_row_in_reconciled [OF dist rl' sub row b] obtain df where
      "df \<in> set (reconciled rep (datafiles w))" "source df = source row" "path df = path row"
      by auto
    moreover from row have "source row = pk self" by simp
    ultimately have "df \<in> set ?dfs" and "path df = p" using dw pr by (simp_all add: pk')
    then show ?thesis by blast
  next
    case False
    with p np have "p \<in> set (new_paths rep)" by simp
    moreover from create_loop_staged [OF cl] have "map path (new_datafiles rep) = new_paths rep"
      by (rule conjunct1)
    ultimately obtain obj where obj: "obj \<in> set (new_datafiles rep)" and po: "path obj = p"
      by (metis (no_types, lifting) image_iff list.set_map)
    from stamp_new_member [OF obj] obtain q c where
      "obj\<lparr>df_pk := q, created := c\<rparr> \<in> set (stamp_new (clock e) (next_pk w) k' (new_datafiles rep))"
      by blast
    with dw have "obj\<lparr>df_pk := q, created := c\<rparr> \<in> set (datafiles w')" by simp
    moreover from staged_source [OF cl obj] have "source (obj\<lparr>df_pk := q, created := c\<rparr>) = pk self"
      by simp
    ultimately have "obj\<lparr>df_pk := q, created := c\<rparr> \<in> set ?dfs" by (simp add: pk')
    moreover have "path (obj\<lparr>df_pk := q, created := c\<rparr>) = p" using po by simp
    ultimately show ?thesis by (metis image_eqI)
  qed
  then have new2: "filter (\<lambda>p. p \<notin> set (remdups (map path ?dfs))) cur = []"
    by (auto simp: filter_empty_conv)
  have sf: "sync_files e2 self' fs lp ?w
      = (Inr \<lparr>updated_files = [], deleted_file_ids = [], new_paths = [], new_datafiles = [],
               readings = 0\<rparr>, ?w)"
    unfolding sync_files_def Let_def rl2 wk2
    by (simp add: new2 bulk_create_def del: set_remdups)
  from sync_files_ok_result [OF rdy' gb2 sf] s' show ?thesis by simp
qed

text \<open>
  So it is on the second world of the small installation: the run above updated one row,
  deleted one and created one; a second run, with a later clock, stages nothing.
\<close>

lemma busy_second_run:
  "sync (example_env\<lparr>clock := \<lambda>k. 200 + k\<rparr>)
       (example_source\<lparr>status := Completed, last_synced := Some 103\<rparr>) busy_world_after
     = (Inr \<lparr>updated_files = [], deleted_file_ids = [], new_paths = [], new_datafiles = [],
              readings = 0\<rparr>,
        example_source\<lparr>status := Completed, last_synced := Some 200\<rparr>,
        finished (example_source\<lparr>status := Completed, last_synced := Some 103\<rparr>) 200
          (started (example_source\<lparr>status := Completed, last_synced := Some 103\<rparr>) busy_world_after))
   \<and> datafiles (finished (example_source\<lparr>status := Completed, last_synced := Some 103\<rparr>) 200
          (started (example_source\<lparr>status := Completed, last_synced := Some 103\<rparr>) busy_world_after))
       = datafiles busy_world_after"
proof -
  have d: "distinct (map df_pk (datafiles busy_world))"
    by (simp add: busy_world_def)
  have b: "get_backend (example_env\<lparr>clock := \<lambda>k. 200 + k\<rparr>)
        (example_source\<lparr>status := Completed, last_synced := Some 103\<rparr>)
      = get_backend example_env example_source"
    by (simp add: get_backend_def example_env_def)
  have h: "sha256 (example_env\<lparr>clock := \<lambda>k. 200 + k\<rparr>) = sha256 example_env"
    by simp
  have real: "\<exists>b. read_file fs (path_join lp p) = Inr b"
    if "get_backend example_env example_source = Inr (Inr (lp, fs))"
      and "walk example_source fs lp = Inr cur" and "p \<in> set cur" for lp fs cur p
  proof -
    from that(1) have "lp = ''/data''" and "fs = example_fs" by (simp_all add: example_backend)
    with that(2) have "cur = [''sub/.hidden/c.txt'', ''a.txt'']" by (simp add: example_walk)
    with that(3) \<open>lp = ''/data''\<close> \<open>fs = example_fs\<close> show ?thesis by auto
  qed
  from second_run_stages_nothing [OF busy_sync d b h real]
  show ?thesis by simp
qed

text \<open>
  Claim C3 says that a second run on an unchanged tree stages nothing and advances
  \<open>last_synced\<close>.  By \<open>second_run_stages_nothing\<close> the code does so whenever every path
  that the walk names is a file.  It does not on the replica root \<open>/a\<close> holding
  \<open>/a/b/a/f.txt\<close>, with a row for \<open>b/f.txt\<close>: \<open>path.split(root)[1]\<close> takes the text
  between the first two occurrences of the root instead of stripping the root, so the walk
  names \<open>b/f.txt\<close>, which is no file.  The first run deletes the row and completes; the
  second run, on the same tree, takes \<open>b/f.txt\<close> for a new path and raises
  \<open>FileNotFoundError\<close>, leaving the status at syncing.
\<close>

theorem sync_twice_nested_root:
  "walk nested_source nested_fs ''/a'' = Inr [''b/f.txt'']
   \<and> read_file nested_fs ''/a/b/a/f.txt'' = Inr [1]
   \<and> read_file nested_fs ''/a/b/f.txt'' = Inl FileNotFoundError
   \<and> sync nested_env nested_source nested_world
       = (Inr \<lparr>updated_files = [], deleted_file_ids = [Some 1], new_paths = [],
                new_datafiles = [], readings = 0\<rparr>,
          nested_source\<lparr>status := Completed, last_synced := Some 100\<rparr>,
          nested_world_after)
   \<and> fst (sync nested_env (nested_source\<lparr>status := Completed, last_synced := Some 100\<rparr>)
            nested_world_after)
       = Inl (OSError FileNotFoundError)
   \<and> status (fst (snd (sync nested_env (nested_source\<lparr>status := Completed, last_synced := Some 100\<rparr>)
            nested_world_after))) = Syncing"
proof -
  have w: "walk nested_source nested_fs ''/a'' = Inr [''b/f.txt'']"
    by (rule nested_walk) simp
  from w nested_reads nested_first show ?thesis
    by (simp add: nested_second)
qed

end
